theory Spec2Isabelle
  imports Main "HOL-Library.Char_ord" "HOL-Library.List_Lexorder" "HOL-Library.AList"
begin

section \<open>Strings and paths\<close>

text \<open>
  Go strings are byte sequences; they are modelled as \<^typ>\<open>string\<close>. The functions of
  this section are the functions of Go's \<open>strings\<close> and \<open>path/filepath\<close> packages
  (Unix build, separator \<open>/\<close>) that \<open>internal/backup/archive.go\<close> calls.
\<close>

definition HasPrefix :: "string \<Rightarrow> string \<Rightarrow> bool" where
  "HasPrefix s pre = (take (length pre) s = pre)"

definition TrimPrefix :: "string \<Rightarrow> string \<Rightarrow> string" where
  "TrimPrefix s pre = (if HasPrefix s pre then drop (length pre) s else s)"

definition HasSuffix :: "string \<Rightarrow> string \<Rightarrow> bool" where
  "HasSuffix s suf = (length suf \<le> length s \<and> drop (length s - length suf) s = suf)"

definition TrimSuffix :: "string \<Rightarrow> string \<Rightarrow> string" where
  "TrimSuffix s suf = (if HasSuffix s suf then take (length s - length suf) s else s)"


text \<open>\<open>strings.Split(s, "/")\<close>: the pieces of \<open>s\<close> between separators; never empty.\<close>

fun Split :: "string \<Rightarrow> string list" where
  "Split [] = [[]]"
| "Split (c # cs) =
     (if c = CHR ''/'' then [] # Split cs
      else (case Split cs of [] \<Rightarrow> [[c]] | p # ps \<Rightarrow> (c # p) # ps))"

text \<open>\<open>strings.Join(elems, "/")\<close>.\<close>

fun JoinSep :: "string list \<Rightarrow> string" where
  "JoinSep [] = []"
| "JoinSep [e] = e"
| "JoinSep (e # es) = e @ CHR ''/'' # JoinSep es"

text \<open>
  \<open>filepath.Clean\<close>: the elements of the path are read left to right; empty elements
  and \<open>.\<close> are dropped; \<open>..\<close> removes the last element written, and where there is none
  it is dropped in a rooted path and kept in a relative one; the empty result is \<open>.\<close>.
\<close>

definition cleanElem :: "bool \<Rightarrow> string list \<Rightarrow> string \<Rightarrow> string list" where
  "cleanElem rooted out e =
     (if e = [] \<or> e = ''.'' then out
      else if e = ''..'' then
        (if out \<noteq> [] \<and> last out \<noteq> ''..'' then butlast out
         else if rooted then out
         else out @ [''..''])
      else out @ [e])"

definition Clean :: "string \<Rightarrow> string" where
  "Clean path =
     (if path = [] then ''.''
      else
        let rooted = (hd path = CHR ''/'');
            out = foldl (cleanElem rooted) [] (Split path)
        in if rooted then CHR ''/'' # JoinSep out
           else if out = [] then ''.''
           else JoinSep out)"

text \<open>\<open>filepath.Join\<close>: leading empty elements are skipped, the rest is joined and cleaned.\<close>

fun Join :: "string list \<Rightarrow> string" where
  "Join [] = []"
| "Join (e # es) = (if e = [] then Join es else Clean (JoinSep (e # es)))"

section \<open>Storage path resolution\<close>

definition nodeTmp :: string where
  "nodeTmp = ''/tmp''"

definition resolveStoragePath :: "string \<Rightarrow> string" where
  "resolveStoragePath storagePath =
     (if HasPrefix storagePath ''host://'' then
        let hostPath = TrimPrefix storagePath ''host://'';
            hostPath = Clean (''/'' @ TrimPrefix hostPath ''/'')
        in if hostPath = ''/'' then nodeTmp
           else if HasPrefix hostPath nodeTmp then
             let suffix = TrimPrefix hostPath nodeTmp
             in Join [nodeTmp, TrimPrefix suffix ''/'']
           else Join [nodeTmp, TrimPrefix hostPath ''/'']
      else storagePath)"

section \<open>Retention: the destination directory and \<open>CleanupArchives\<close>\<close>

text \<open>
  A directory entry as \<open>os.ReadDir\<close> returns it. \<open>Info\<close> is the modification time
  (nanoseconds since the epoch) that \<open>f.Info()\<close> reports, \<open>None\<close> when that call fails;
  \<open>removable\<close> tells whether \<open>os.Remove\<close> succeeds on the entry.
\<close>

record dirent =
  Name :: string
  IsDir :: bool
  Info :: "int option"
  removable :: bool

datatype dirstate = Absent | Unreadable | Dir "dirent list"

text \<open>
  A file system gives the state of the directory that a path names. Paths are told apart
  as texts: nothing is said about which paths name the same directory, so the model
  follows the code where the directory it lists and the directory of a path it removes
  are named by the same text.
\<close>

type_synonym filesystem = "string \<Rightarrow> dirstate"

datatype os_error = ErrNotExist | ErrOther

definition ReadDir :: "filesystem \<Rightarrow> string \<Rightarrow> os_error + dirent list" where
  "ReadDir fs path =
     (case fs path of
        Absent \<Rightarrow> Inl ErrNotExist
      | Unreadable \<Rightarrow> Inl ErrOther
      | Dir es \<Rightarrow> Inr (sort_key Name es))"

text \<open>
  \<open>os.Remove(path)\<close>. The file that a path names is looked up from the text of the path:
  it is the entry called by the last element of the path, in the directory named by what
  comes before the last separator (\<open>splitPath\<close>; the directory is \<open>/\<close> where nothing
  comes before, and \<open>.\<close> for a path without separator). \<open>unlink\<close> removes the entry
  \<open>name\<close> of the directory \<open>dir\<close>; the result is the error, if any, and the file system
  afterwards.
\<close>

definition splitPath :: "string \<Rightarrow> string \<times> string" where
  "splitPath path =
     (if CHR ''/'' \<in> set path then
        let name = rev (takeWhile (\<lambda>c. c \<noteq> CHR ''/'') (rev path));
            dir = take (length path - length name - 1) path
        in (if dir = [] then ''/'' else dir, name)
      else (''.'', path))"

definition unlink :: "filesystem \<Rightarrow> string \<Rightarrow> string \<Rightarrow> os_error option \<times> filesystem" where
  "unlink fs dir name =
     (case fs dir of
        Dir es \<Rightarrow>
          (case find (\<lambda>e. Name e = name) es of
             None \<Rightarrow> (Some ErrNotExist, fs)
           | Some e \<Rightarrow>
               if removable e then (None, fs(dir := Dir (filter (\<lambda>e. Name e \<noteq> name) es)))
               else (Some ErrOther, fs))
      | _ \<Rightarrow> (Some ErrNotExist, fs))"

definition Remove :: "filesystem \<Rightarrow> string \<Rightarrow> os_error option \<times> filesystem" where
  "Remove fs path = (case splitPath path of (dir, name) \<Rightarrow> unlink fs dir name)"

text \<open>Go's \<open>int\<close> and \<open>time.Duration\<close> are 64-bit: arithmetic wraps around.\<close>

definition int64 :: "int \<Rightarrow> int" where
  "int64 x = (x + 2 ^ 63) mod 2 ^ 64 - 2 ^ 63"

definition Hour :: int where
  "Hour = 3600000000000"

text \<open>
  \<open>time.Now().Add(-time.Duration(*retentionDays) * 24 * time.Hour)\<close>; times are
  nanoseconds since the epoch.
\<close>

definition cutoff :: "int \<Rightarrow> int \<Rightarrow> int" where
  "cutoff now retentionDays = now + int64 (int64 (int64 (- retentionDays) * 24) * Hour)"

datatype cleanup_error =
    ReadStorageFailed
  | RemoveExpiredFailed string
  | ReadForMaxFailed
  | EnforceMaxFailed string

datatype cleanup_result = Success | Failure cleanup_error | Panic

definition isArchive :: "dirent \<Rightarrow> bool" where
  "isArchive e =
     (\<not> IsDir e \<and> HasPrefix (Name e) ''cluster-backup-'' \<and> HasSuffix (Name e) ''.tar.gz'')"

definition archiveFiles :: "dirent list \<Rightarrow> dirent list" where
  "archiveFiles entries = sort_key Name (filter isArchive entries)"

text \<open>The age phase: the loop over \<open>files\<close>; the result is the name whose removal failed.\<close>

fun removeExpired :: "filesystem \<Rightarrow> string \<Rightarrow> int \<Rightarrow> dirent list \<Rightarrow> string option \<times> filesystem" where
  "removeExpired fs dir cutT [] = (None, fs)"
| "removeExpired fs dir cutT (f # files) =
     (case Info f of
        None \<Rightarrow> removeExpired fs dir cutT files
      | Some modTime \<Rightarrow>
          if modTime < cutT then
            (case Remove fs (Join [dir, Name f]) of
               (Some ErrOther, fs') \<Rightarrow> (Some (Name f), fs')
             | (_, fs') \<Rightarrow> removeExpired fs' dir cutT files)
          else removeExpired fs dir cutT files)"

text \<open>
  The count phase: \<open>for i := 0; i < toDelete; i++\<close> over \<open>files[i]\<close>; the second argument
  is the rest of \<open>files\<close> from index \<open>i\<close>, the third is \<open>toDelete - i\<close>. Reading \<open>files[i]\<close>
  past the end of the slice panics.
\<close>

fun enforceMax :: "filesystem \<Rightarrow> string \<Rightarrow> dirent list \<Rightarrow> nat \<Rightarrow> cleanup_result \<times> filesystem" where
  "enforceMax fs dir files 0 = (Success, fs)"
| "enforceMax fs dir [] (Suc k) = (Panic, fs)"
| "enforceMax fs dir (f # files) (Suc k) =
     (case Remove fs (Join [dir, Name f]) of
        (Some ErrOther, fs') \<Rightarrow> (Failure (EnforceMaxFailed (Name f)), fs')
      | (_, fs') \<Rightarrow> enforceMax fs' dir files k)"

definition CleanupArchives ::
  "int \<Rightarrow> filesystem \<Rightarrow> string \<Rightarrow> int option \<Rightarrow> int option \<Rightarrow> cleanup_result \<times> filesystem" where
  "CleanupArchives now fs storagePath retentionDays maxArchives =
     (let resolvedStoragePath = resolveStoragePath storagePath in
      case ReadDir fs resolvedStoragePath of
        Inl ErrNotExist \<Rightarrow> (Success, fs)
      | Inl ErrOther \<Rightarrow> (Failure ReadStorageFailed, fs)
      | Inr entries \<Rightarrow>
          (case (case retentionDays of
                   None \<Rightarrow> (None, fs)
                 | Some days \<Rightarrow>
                     removeExpired fs resolvedStoragePath (cutoff now days) (archiveFiles entries)) of
             (Some name, fs1) \<Rightarrow> (Failure (RemoveExpiredFailed name), fs1)
           | (None, fs1) \<Rightarrow>
               (case maxArchives of
                  None \<Rightarrow> (Success, fs1)
                | Some maxA \<Rightarrow>
                    (case ReadDir fs1 resolvedStoragePath of
                       Inl err \<Rightarrow> (Failure ReadForMaxFailed, fs1)
                     | Inr entries2 \<Rightarrow>
                         (let files = archiveFiles entries2 in
                          if int (length files) > maxA then
                            enforceMax fs1 resolvedStoragePath files
                              (nat (int64 (int (length files) - maxA)))
                          else (Success, fs1))))))"

text \<open>
  The retention policy in the words of the specification, to compare the code with: an
  archive is kept by the age rule when its modification time is not before
  \<open>now - days\<close>, and of those the \<open>maxA\<close> with the largest names are kept. \<open>newerThan\<close> is
  the age rule read strictly.
\<close>

definition notOlder :: "int \<Rightarrow> int \<Rightarrow> dirent \<Rightarrow> bool" where
  "notOlder now days e =
     (case Info e of None \<Rightarrow> False | Some modTime \<Rightarrow> now - days * (24 * Hour) \<le> modTime)"

definition newerThan :: "int \<Rightarrow> int \<Rightarrow> dirent \<Rightarrow> bool" where
  "newerThan now days e =
     (case Info e of None \<Rightarrow> False | Some modTime \<Rightarrow> now - days * (24 * Hour) < modTime)"

definition retained :: "int \<Rightarrow> int \<Rightarrow> int \<Rightarrow> dirent list \<Rightarrow> dirent list" where
  "retained now days maxA es =
     (let young = sort_key Name (filter (\<lambda>e. isArchive e \<and> notOlder now days e) es)
      in drop (length young - nat maxA) young)"

text \<open>
  The directory of \<open>TestCleanupArchivesRetentionAndMax\<close>: four archives aged 48, 2, 1 and
  0 hours at the time of the run.
\<close>

definition testNow :: int where
  "testNow = 1735866000000000000"

definition createArchiveFile :: "string \<Rightarrow> int \<Rightarrow> dirent" where
  "createArchiveFile name age =
     \<lparr>Name = name, IsDir = False, Info = Some (testNow - age), removable = True\<rparr>"

definition testArchives :: "dirent list" where
  "testArchives =
     [createArchiveFile ''cluster-backup-20240101-000000.tar.gz'' (48 * Hour),
      createArchiveFile ''cluster-backup-20250101-010000.tar.gz'' (2 * Hour),
      createArchiveFile ''cluster-backup-20250102-010000.tar.gz'' Hour,
      createArchiveFile ''cluster-backup-20250103-010000.tar.gz'' 0]"

definition testDir :: "dirent list \<Rightarrow> filesystem" where
  "testDir es = (\<lambda>path. if path = ''/var/backups'' then Dir es else Absent)"

section \<open>Archive entry paths\<close>

record GroupVersionResource =
  Group :: string
  Version :: string
  Resource :: string

text \<open>
  A path element that \<open>filepath.Clean\<close> keeps as it is: not empty, without separator, and
  neither \<open>.\<close> nor \<open>..\<close>. The names, namespaces, versions and resources of Kubernetes
  objects are such elements.
\<close>

definition segment :: "string \<Rightarrow> bool" where
  "segment e = (e \<noteq> [] \<and> CHR ''/'' \<notin> set e \<and> e \<noteq> ''.'' \<and> e \<noteq> ''..'')"

text \<open>
  \<open>backupResource\<close> writes each object to \<open>filepath.Join(dirPath, name + ".json")\<close>, where
  \<open>dirPath\<close> is built from the staging directory, the scope and the coordinate.
\<close>

definition dirPath :: "string \<Rightarrow> GroupVersionResource \<Rightarrow> string \<Rightarrow> string" where
  "dirPath tempDir gvr namespace =
     (if namespace \<noteq> [] then
        Join [tempDir, ''namespaces'', namespace, Group gvr, Version gvr, Resource gvr]
      else Join [tempDir, ''cluster'', Group gvr, Version gvr, Resource gvr])"

definition filename :: "string \<Rightarrow> GroupVersionResource \<Rightarrow> string \<Rightarrow> string \<Rightarrow> string" where
  "filename tempDir gvr namespace name = Join [dirPath tempDir gvr namespace, name @ ''.json'']"

text \<open>
  \<open>filepath.Rel\<close>: both paths are cleaned, their common leading elements are dropped, one
  \<open>..\<close> is written for each element left of the base, then the elements left of the
  target. \<open>elems\<close> gives the elements of a cleaned path.
\<close>

fun dropCommon :: "string list \<Rightarrow> string list \<Rightarrow> string list \<times> string list" where
  "dropCommon (b # bs) (t # ts) = (if b = t then dropCommon bs ts else (b # bs, t # ts))"
| "dropCommon bs ts = (bs, ts)"

definition elems :: "string \<Rightarrow> string list" where
  "elems p = (if p = [] then [] else if p = ''/'' then [[]] else Split p)"

definition Rel :: "string \<Rightarrow> string \<Rightarrow> string option" where
  "Rel basepath targpath =
     (let base = Clean basepath; targ = Clean targpath in
      if targ = base then Some ''.''
      else
        let base = (if base = ''.'' then [] else base) in
        if (base \<noteq> [] \<and> hd base = CHR ''/'') \<noteq> (targ \<noteq> [] \<and> hd targ = CHR ''/'') then None
        else
          (case dropCommon (elems base) (elems targ) of
             ([], ts) \<Rightarrow> Some (JoinSep ts)
           | (b # bs, []) \<Rightarrow> Some (JoinSep (replicate (length (b # bs)) ''..''))
           | (b # bs, t # ts) \<Rightarrow>
               if b = ''..'' then None
               else Some (JoinSep (replicate (length (b # bs)) ''..'' @ t # ts))))"

text \<open>
  \<open>createArchive\<close> names each tar entry by its path relative to the staging directory:
  \<open>header.Name = relPath\<close>.
\<close>

definition entryName :: "string \<Rightarrow> GroupVersionResource \<Rightarrow> string \<Rightarrow> string \<Rightarrow> string option" where
  "entryName tempDir gvr namespace name = Rel tempDir (filename tempDir gvr namespace name)"

datatype parse_error =
    MalformedPath | MissingResourceName | BadClusterPath | BadNamespacedPath | UnrecognisedPrefix

text \<open>The \<open>switch len(remainder)\<close> of both scopes.\<close>

fun coordinate :: "string list \<Rightarrow> GroupVersionResource option" where
  "coordinate [v, r] = Some \<lparr>Group = [], Version = v, Resource = r\<rparr>"
| "coordinate [g, v, r] = Some \<lparr>Group = g, Version = v, Resource = r\<rparr>"
| "coordinate remainder = None"

definition parseArchiveEntry ::
  "string \<Rightarrow> parse_error + (GroupVersionResource \<times> string \<times> string)" where
  "parseArchiveEntry path =
     (let parts = Split (Clean path) in
      if length parts < 2 then Inl MalformedPath
      else
        let name = TrimSuffix (last parts) ''.json'' in
        if name = [] then Inl MissingResourceName
        else
          (case butlast parts of
             [] \<Rightarrow> Inl MalformedPath
           | scope # remainder \<Rightarrow>
               if scope = ''cluster'' then
                 (case coordinate remainder of
                    None \<Rightarrow> Inl BadClusterPath
                  | Some gvr \<Rightarrow> Inr (gvr, [], name))
               else if scope = ''namespaces'' then
                 (case remainder of
                    [] \<Rightarrow> Inl BadNamespacedPath
                  | [namespace] \<Rightarrow> Inl BadNamespacedPath
                  | namespace # remainder' \<Rightarrow>
                      (case coordinate remainder' of
                         None \<Rightarrow> Inl BadNamespacedPath
                       | Some gvr \<Rightarrow> Inr (gvr, namespace, name)))
               else Inl UnrecognisedPrefix))"

section \<open>Objects and the dynamic client\<close>

text \<open>
  A decoded JSON document; \<open>map[string]interface{}\<close> is an association list, read with
  \<^const>\<open>map_of\<close> and written with \<^const>\<open>AList.update\<close>.
\<close>

datatype json =
    JNull | JBool bool | JNumber int | JString string | JArray "json list"
  | JObject "(string \<times> json) list"

type_synonym obj = "(string \<times> json) list"

text \<open>The accessors of \<open>unstructured.Unstructured\<close> that the restore path calls.\<close>

definition metadataOf :: "obj \<Rightarrow> obj option" where
  "metadataOf ob = (case map_of ob ''metadata'' of Some (JObject m) \<Rightarrow> Some m | _ \<Rightarrow> None)"

definition NestedString :: "obj \<Rightarrow> string \<Rightarrow> string" where
  "NestedString ob field =
     (case metadataOf ob of
        None \<Rightarrow> []
      | Some m \<Rightarrow> (case map_of m field of Some (JString v) \<Rightarrow> v | _ \<Rightarrow> []))"

definition GetName :: "obj \<Rightarrow> string" where
  "GetName ob = NestedString ob ''name''"

definition GetNamespace :: "obj \<Rightarrow> string" where
  "GetNamespace ob = NestedString ob ''namespace''"

definition GetResourceVersion :: "obj \<Rightarrow> string" where
  "GetResourceVersion ob = NestedString ob ''resourceVersion''"

definition setNestedField :: "obj \<Rightarrow> string \<Rightarrow> string \<Rightarrow> obj" where
  "setNestedField ob field v =
     (case map_of ob ''metadata'' of
        None \<Rightarrow> AList.update ''metadata'' (JObject [(field, JString v)]) ob
      | Some (JObject m) \<Rightarrow> AList.update ''metadata'' (JObject (AList.update field (JString v) m)) ob
      | Some other \<Rightarrow> ob)"

definition RemoveNestedField :: "obj \<Rightarrow> string \<Rightarrow> obj" where
  "RemoveNestedField ob field =
     (case map_of ob ''metadata'' of
        Some (JObject m) \<Rightarrow> AList.update ''metadata'' (JObject (AList.delete field m)) ob
      | _ \<Rightarrow> ob)"

definition SetNamespace :: "obj \<Rightarrow> string \<Rightarrow> obj" where
  "SetNamespace ob ns =
     (if ns = [] then RemoveNestedField ob ''namespace'' else setNestedField ob ''namespace'' ns)"

definition SetResourceVersion :: "obj \<Rightarrow> string \<Rightarrow> obj" where
  "SetResourceVersion ob rv =
     (if rv = [] then RemoveNestedField ob ''resourceVersion''
      else setNestedField ob ''resourceVersion'' rv)"

datatype api_error = AlreadyExists | NotFound | Conflict | ServerError

text \<open>
  \<open>dynamic.Interface\<close> as the engine uses it: each call takes the coordinate and the
  namespace of the resource client (empty for a cluster-scoped one) and the state of the
  system behind the client, and returns the answer and the state afterwards.
\<close>

record 's DynamicClient =
  clientList :: "GroupVersionResource \<Rightarrow> string \<Rightarrow> 's \<Rightarrow> (api_error + obj list) \<times> 's"
  clientCreate :: "GroupVersionResource \<Rightarrow> string \<Rightarrow> obj \<Rightarrow> 's \<Rightarrow> (api_error + obj) \<times> 's"
  clientGet :: "GroupVersionResource \<Rightarrow> string \<Rightarrow> string \<Rightarrow> 's \<Rightarrow> (api_error + obj) \<times> 's"
  clientUpdate :: "GroupVersionResource \<Rightarrow> string \<Rightarrow> obj \<Rightarrow> 's \<Rightarrow> (api_error + obj) \<times> 's"

section \<open>Namespace resolution and resource selection\<close>

record BackupOptions =
  IncludeNamespaces :: "string list"
  ExcludeNamespaces :: "string list"
  IncludeClusterResources :: bool
  ResourceTypes :: "string list"

text \<open>
  Go strings hold UTF-8 text, and \<open>strings.TrimSpace\<close> and \<open>strings.ToLower\<close> read them
  rune by rune. \<open>DecodeRune\<close> is \<open>utf8.DecodeRuneInString\<close>: the first rune of a string
  and its width in bytes; a byte that starts no well-formed encoding is the rune
  \<open>RuneError\<close> of width 1.
\<close>

type_synonym rune = int

definition RuneError :: rune where
  "RuneError = 0xFFFD"

definition continuation :: "char \<Rightarrow> bool" where
  "continuation c = (0x80 \<le> (of_char c :: int) \<and> (of_char c :: int) \<le> 0xBF)"

fun DecodeRune :: "string \<Rightarrow> rune \<times> nat" where
  "DecodeRune [] = (RuneError, 0)"
| "DecodeRune (c0 # rest) =
     (let b0 = of_char c0 in
      if b0 < 0x80 then (b0, 1)
      else if 0xC2 \<le> b0 \<and> b0 \<le> 0xDF then
        (case rest of
           c1 # _ \<Rightarrow>
             if continuation c1 then ((b0 - 0xC0) * 64 + (of_char c1 - 0x80), 2)
             else (RuneError, 1)
         | _ \<Rightarrow> (RuneError, 1))
      else if 0xE0 \<le> b0 \<and> b0 \<le> 0xEF then
        (case rest of
           c1 # c2 # _ \<Rightarrow>
             let b1 = of_char c1 in
             if (if b0 = 0xE0 then 0xA0 else 0x80) \<le> b1
                \<and> b1 \<le> (if b0 = 0xED then 0x9F else 0xBF) \<and> continuation c2
             then ((b0 - 0xE0) * 4096 + (b1 - 0x80) * 64 + (of_char c2 - 0x80), 3)
             else (RuneError, 1)
         | _ \<Rightarrow> (RuneError, 1))
      else if 0xF0 \<le> b0 \<and> b0 \<le> 0xF4 then
        (case rest of
           c1 # c2 # c3 # _ \<Rightarrow>
             let b1 = of_char c1 in
             if (if b0 = 0xF0 then 0x90 else 0x80) \<le> b1
                \<and> b1 \<le> (if b0 = 0xF4 then 0x8F else 0xBF) \<and> continuation c2 \<and> continuation c3
             then ((b0 - 0xF0) * 262144 + (b1 - 0x80) * 4096 + (of_char c2 - 0x80) * 64
                   + (of_char c3 - 0x80), 4)
             else (RuneError, 1)
         | _ \<Rightarrow> (RuneError, 1))
      else (RuneError, 1))"

text \<open>
  \<open>utf8.DecodeLastRuneInString\<close>: the last rune of a string and its width. A last byte
  below \<open>0x80\<close> is the rune. Otherwise the decoder walks back over at most three
  continuation bytes to the nearest byte that can start a rune (or to the start of the
  string), decodes from there, and accepts the rune only if it ends where the string
  ends; \<open>n\<close> is the number of bytes it decodes from.
\<close>

definition DecodeLastRune :: "string \<Rightarrow> rune \<times> nat" where
  "DecodeLastRune s =
     (case rev s of
        [] \<Rightarrow> (RuneError, 0)
      | c # front \<Rightarrow>
          if (of_char c :: int) < 0x80 then (of_char c, 1)
          else
            let near = take 3 front;
                k = length (takeWhile continuation near);
                n = (if k < length near then k + 2 else if length front \<le> 3 then k + 1 else 5)
            in case DecodeRune (drop (length s - n) s) of
                 (r, width) \<Rightarrow> if width \<noteq> n then (RuneError, 1) else (r, width))"

text \<open>
  \<open>utf8.AppendRune\<close>, as \<open>strings.Builder.WriteRune\<close> calls it: the encoding of a rune; a
  surrogate or a rune past \<open>0x10FFFF\<close> is written as \<open>RuneError\<close>.
\<close>

definition EncodeRune :: "rune \<Rightarrow> string" where
  "EncodeRune r =
     (if r < 0x80 then [char_of r]
      else if r < 0x800 then [char_of (0xC0 + r div 64), char_of (0x80 + r mod 64)]
      else if 0x10FFFF < r \<or> (0xD800 \<le> r \<and> r \<le> 0xDFFF) then [CHR 0xEF, CHR 0xBF, CHR 0xBD]
      else if r < 0x10000 then
        [char_of (0xE0 + r div 4096), char_of (0x80 + r div 64 mod 64), char_of (0x80 + r mod 64)]
      else
        [char_of (0xF0 + r div 262144), char_of (0x80 + r div 4096 mod 64),
         char_of (0x80 + r div 64 mod 64), char_of (0x80 + r mod 64)])"

text \<open>
  \<open>for _, c := range s\<close>: the runes of a string in order. The first argument is the
  number of bytes still to skip, those of the rune decoded last.
\<close>

fun runesFrom :: "nat \<Rightarrow> string \<Rightarrow> rune list" where
  "runesFrom k [] = []"
| "runesFrom (Suc k) (c # cs) = runesFrom k cs"
| "runesFrom 0 (c # cs) =
     (case DecodeRune (c # cs) of (r, width) \<Rightarrow> r # runesFrom (width - 1) cs)"

text \<open>
  \<open>unicode.IsSpace\<close>: in Latin-1 the white space is tab, line feed, vertical tab, form
  feed, carriage return, space, \<open>U+0085\<close> and \<open>U+00A0\<close>; past it, the runes with the
  property \<open>White_Space\<close>.
\<close>

definition IsSpace :: "rune \<Rightarrow> bool" where
  "IsSpace r =
     (if r \<le> 0xFF then r \<in> {0x09, 0x0A, 0x0B, 0x0C, 0x0D, 0x20, 0x85, 0xA0}
      else r = 0x1680 \<or> (0x2000 \<le> r \<and> r \<le> 0x200A) \<or> r = 0x2028 \<or> r = 0x2029
           \<or> r = 0x202F \<or> r = 0x205F \<or> r = 0x3000)"

text \<open>
  \<open>strings.TrimSpace\<close>: the white space runes at the start of the string are dropped
  (\<open>TrimLeftFrom\<close>, the first argument being the bytes still to skip), then those at its
  end (\<open>TrimRightFrom\<close>, which reads the string reversed and decodes the last rune of what
  is left of it).
\<close>

fun TrimLeftFrom :: "nat \<Rightarrow> string \<Rightarrow> string" where
  "TrimLeftFrom k [] = []"
| "TrimLeftFrom (Suc k) (c # cs) = TrimLeftFrom k cs"
| "TrimLeftFrom 0 (c # cs) =
     (case DecodeRune (c # cs) of
        (r, width) \<Rightarrow> if IsSpace r then TrimLeftFrom (width - 1) cs else c # cs)"

fun TrimRightFrom :: "nat \<Rightarrow> string \<Rightarrow> string" where
  "TrimRightFrom k [] = []"
| "TrimRightFrom (Suc k) (c # cs) = TrimRightFrom k cs"
| "TrimRightFrom 0 (c # cs) =
     (case DecodeLastRune (rev (c # cs)) of
        (r, width) \<Rightarrow> if IsSpace r then TrimRightFrom (width - 1) cs else c # cs)"

definition TrimSpace :: "string \<Rightarrow> string" where
  "TrimSpace s = rev (TrimRightFrom 0 (rev (TrimLeftFrom 0 s)))"

text \<open>
  \<open>unicode.ToLower\<close>. Past ASCII the lower-case mapping is that of the Unicode character
  database, which Go keeps in \<open>unicode.CaseRanges\<close>. An entry \<open>(lo, hi, stride, lower)\<close> of
  the table below stands for the runes \<open>lo\<close>, \<open>lo + stride\<close>, ... up to \<open>hi\<close>, and maps
  \<open>lo\<close> to \<open>lower\<close> and every other rune of the entry by the same distance.
\<close>

definition CaseRanges :: "(rune \<times> rune \<times> int \<times> rune) list" where
  "CaseRanges =
    [(0xC0, 0xD6, 1, 0xE0), (0xD8, 0xDE, 1, 0xF8), (0x100, 0x12E, 2, 0x101),
     (0x130, 0x130, 1, 0x69), (0x132, 0x136, 2, 0x133), (0x139, 0x147, 2, 0x13A),
     (0x14A, 0x176, 2, 0x14B), (0x178, 0x178, 1, 0xFF), (0x179, 0x17D, 2, 0x17A),
     (0x181, 0x181, 1, 0x253), (0x182, 0x184, 2, 0x183), (0x186, 0x186, 1, 0x254),
     (0x187, 0x187, 1, 0x188), (0x189, 0x18A, 1, 0x256), (0x18B, 0x18B, 1, 0x18C),
     (0x18E, 0x18E, 1, 0x1DD), (0x18F, 0x18F, 1, 0x259), (0x190, 0x190, 1, 0x25B),
     (0x191, 0x191, 1, 0x192), (0x193, 0x193, 1, 0x260), (0x194, 0x194, 1, 0x263),
     (0x196, 0x196, 1, 0x269), (0x197, 0x197, 1, 0x268), (0x198, 0x198, 1, 0x199),
     (0x19C, 0x19C, 1, 0x26F), (0x19D, 0x19D, 1, 0x272), (0x19F, 0x19F, 1, 0x275),
     (0x1A0, 0x1A4, 2, 0x1A1), (0x1A6, 0x1A6, 1, 0x280), (0x1A7, 0x1A7, 1, 0x1A8),
     (0x1A9, 0x1A9, 1, 0x283), (0x1AC, 0x1AC, 1, 0x1AD), (0x1AE, 0x1AE, 1, 0x288),
     (0x1AF, 0x1AF, 1, 0x1B0), (0x1B1, 0x1B2, 1, 0x28A), (0x1B3, 0x1B5, 2, 0x1B4),
     (0x1B7, 0x1B7, 1, 0x292), (0x1B8, 0x1B8, 1, 0x1B9), (0x1BC, 0x1BC, 1, 0x1BD),
     (0x1C4, 0x1C4, 1, 0x1C6), (0x1C5, 0x1C5, 1, 0x1C6), (0x1C7, 0x1C7, 1, 0x1C9),
     (0x1C8, 0x1C8, 1, 0x1C9), (0x1CA, 0x1CA, 1, 0x1CC), (0x1CB, 0x1DB, 2, 0x1CC),
     (0x1DE, 0x1EE, 2, 0x1DF), (0x1F1, 0x1F1, 1, 0x1F3), (0x1F2, 0x1F4, 2, 0x1F3),
     (0x1F6, 0x1F6, 1, 0x195), (0x1F7, 0x1F7, 1, 0x1BF), (0x1F8, 0x21E, 2, 0x1F9),
     (0x220, 0x220, 1, 0x19E), (0x222, 0x232, 2, 0x223), (0x23A, 0x23A, 1, 0x2C65),
     (0x23B, 0x23B, 1, 0x23C), (0x23D, 0x23D, 1, 0x19A), (0x23E, 0x23E, 1, 0x2C66),
     (0x241, 0x241, 1, 0x242), (0x243, 0x243, 1, 0x180), (0x244, 0x244, 1, 0x289),
     (0x245, 0x245, 1, 0x28C), (0x246, 0x24E, 2, 0x247), (0x370, 0x372, 2, 0x371),
     (0x376, 0x376, 1, 0x377), (0x37F, 0x37F, 1, 0x3F3), (0x386, 0x386, 1, 0x3AC),
     (0x388, 0x38A, 1, 0x3AD), (0x38C, 0x38C, 1, 0x3CC), (0x38E, 0x38F, 1, 0x3CD),
     (0x391, 0x3A1, 1, 0x3B1), (0x3A3, 0x3AB, 1, 0x3C3), (0x3CF, 0x3CF, 1, 0x3D7),
     (0x3D8, 0x3EE, 2, 0x3D9), (0x3F4, 0x3F4, 1, 0x3B8), (0x3F7, 0x3F7, 1, 0x3F8),
     (0x3F9, 0x3F9, 1, 0x3F2), (0x3FA, 0x3FA, 1, 0x3FB), (0x3FD, 0x3FF, 1, 0x37B),
     (0x400, 0x40F, 1, 0x450), (0x410, 0x42F, 1, 0x430), (0x460, 0x480, 2, 0x461),
     (0x48A, 0x4BE, 2, 0x48B), (0x4C0, 0x4C0, 1, 0x4CF), (0x4C1, 0x4CD, 2, 0x4C2),
     (0x4D0, 0x52E, 2, 0x4D1), (0x531, 0x556, 1, 0x561), (0x10A0, 0x10C5, 1, 0x2D00),
     (0x10C7, 0x10C7, 1, 0x2D27), (0x10CD, 0x10CD, 1, 0x2D2D), (0x13A0, 0x13EF, 1, 0xAB70),
     (0x13F0, 0x13F5, 1, 0x13F8), (0x1C90, 0x1CBA, 1, 0x10D0), (0x1CBD, 0x1CBF, 1, 0x10FD),
     (0x1E00, 0x1E94, 2, 0x1E01), (0x1E9E, 0x1E9E, 1, 0xDF), (0x1EA0, 0x1EFE, 2, 0x1EA1),
     (0x1F08, 0x1F0F, 1, 0x1F00), (0x1F18, 0x1F1D, 1, 0x1F10), (0x1F28, 0x1F2F, 1, 0x1F20),
     (0x1F38, 0x1F3F, 1, 0x1F30), (0x1F48, 0x1F4D, 1, 0x1F40), (0x1F59, 0x1F5F, 2, 0x1F51),
     (0x1F68, 0x1F6F, 1, 0x1F60), (0x1F88, 0x1F8F, 1, 0x1F80), (0x1F98, 0x1F9F, 1, 0x1F90),
     (0x1FA8, 0x1FAF, 1, 0x1FA0), (0x1FB8, 0x1FB9, 1, 0x1FB0), (0x1FBA, 0x1FBB, 1, 0x1F70),
     (0x1FBC, 0x1FBC, 1, 0x1FB3), (0x1FC8, 0x1FCB, 1, 0x1F72), (0x1FCC, 0x1FCC, 1, 0x1FC3),
     (0x1FD8, 0x1FD9, 1, 0x1FD0), (0x1FDA, 0x1FDB, 1, 0x1F76), (0x1FE8, 0x1FE9, 1, 0x1FE0),
     (0x1FEA, 0x1FEB, 1, 0x1F7A), (0x1FEC, 0x1FEC, 1, 0x1FE5), (0x1FF8, 0x1FF9, 1, 0x1F78),
     (0x1FFA, 0x1FFB, 1, 0x1F7C), (0x1FFC, 0x1FFC, 1, 0x1FF3), (0x2126, 0x2126, 1, 0x3C9),
     (0x212A, 0x212A, 1, 0x6B), (0x212B, 0x212B, 1, 0xE5), (0x2132, 0x2132, 1, 0x214E),
     (0x2160, 0x216F, 1, 0x2170), (0x2183, 0x2183, 1, 0x2184), (0x24B6, 0x24CF, 1, 0x24D0),
     (0x2C00, 0x2C2F, 1, 0x2C30), (0x2C60, 0x2C60, 1, 0x2C61), (0x2C62, 0x2C62, 1, 0x26B),
     (0x2C63, 0x2C63, 1, 0x1D7D), (0x2C64, 0x2C64, 1, 0x27D), (0x2C67, 0x2C6B, 2, 0x2C68),
     (0x2C6D, 0x2C6D, 1, 0x251), (0x2C6E, 0x2C6E, 1, 0x271), (0x2C6F, 0x2C6F, 1, 0x250),
     (0x2C70, 0x2C70, 1, 0x252), (0x2C72, 0x2C72, 1, 0x2C73), (0x2C75, 0x2C75, 1, 0x2C76),
     (0x2C7E, 0x2C7F, 1, 0x23F), (0x2C80, 0x2CE2, 2, 0x2C81), (0x2CEB, 0x2CED, 2, 0x2CEC),
     (0x2CF2, 0x2CF2, 1, 0x2CF3), (0xA640, 0xA66C, 2, 0xA641), (0xA680, 0xA69A, 2, 0xA681),
     (0xA722, 0xA72E, 2, 0xA723), (0xA732, 0xA76E, 2, 0xA733), (0xA779, 0xA77B, 2, 0xA77A),
     (0xA77D, 0xA77D, 1, 0x1D79), (0xA77E, 0xA786, 2, 0xA77F), (0xA78B, 0xA78B, 1, 0xA78C),
     (0xA78D, 0xA78D, 1, 0x265), (0xA790, 0xA792, 2, 0xA791), (0xA796, 0xA7A8, 2, 0xA797),
     (0xA7AA, 0xA7AA, 1, 0x266), (0xA7AB, 0xA7AB, 1, 0x25C), (0xA7AC, 0xA7AC, 1, 0x261),
     (0xA7AD, 0xA7AD, 1, 0x26C), (0xA7AE, 0xA7AE, 1, 0x26A), (0xA7B0, 0xA7B0, 1, 0x29E),
     (0xA7B1, 0xA7B1, 1, 0x287), (0xA7B2, 0xA7B2, 1, 0x29D), (0xA7B3, 0xA7B3, 1, 0xAB53),
     (0xA7B4, 0xA7C2, 2, 0xA7B5), (0xA7C4, 0xA7C4, 1, 0xA794), (0xA7C5, 0xA7C5, 1, 0x282),
     (0xA7C6, 0xA7C6, 1, 0x1D8E), (0xA7C7, 0xA7C9, 2, 0xA7C8), (0xA7D0, 0xA7D0, 1, 0xA7D1),
     (0xA7D6, 0xA7D8, 2, 0xA7D7), (0xA7F5, 0xA7F5, 1, 0xA7F6), (0xFF21, 0xFF3A, 1, 0xFF41),
     (0x10400, 0x10427, 1, 0x10428), (0x104B0, 0x104D3, 1, 0x104D8),
     (0x10570, 0x1057A, 1, 0x10597), (0x1057C, 0x1058A, 1, 0x105A3),
     (0x1058C, 0x10592, 1, 0x105B3), (0x10594, 0x10595, 1, 0x105BB),
     (0x10C80, 0x10CB2, 1, 0x10CC0), (0x118A0, 0x118BF, 1, 0x118C0),
     (0x16E40, 0x16E5F, 1, 0x16E60), (0x1E900, 0x1E921, 1, 0x1E922)]"

definition unicodeToLower :: "rune \<Rightarrow> rune" where
  "unicodeToLower r =
     (if r \<le> 0x7F then (if 0x41 \<le> r \<and> r \<le> 0x5A then r + 0x20 else r)
      else
        (case find (\<lambda>(lo, hi, stride, lower). lo \<le> r \<and> r \<le> hi \<and> (r - lo) mod stride = 0)
                CaseRanges of
           Some (lo, hi, stride, lower) \<Rightarrow> lower + (r - lo)
         | None \<Rightarrow> r))"

text \<open>
  \<open>strings.ToLower\<close>: every rune of the string is mapped and written back; a byte that
  is not part of well-formed UTF-8 is read as \<open>RuneError\<close> and written as such.
\<close>

definition ToLower :: "string \<Rightarrow> string" where
  "ToLower s = concat (map (\<lambda>r. EncodeRune (unicodeToLower r)) (runesFrom 0 s))"

text \<open>
  \<open>makeStringSet\<close>: the key set of the Go map, kept as a list without repetitions; the
  \<open>nil\<close> map returned for no values is the empty set.
\<close>

fun makeStringSet :: "string list \<Rightarrow> (string \<Rightarrow> string) \<Rightarrow> string list" where
  "makeStringSet [] normalizeFn = []"
| "makeStringSet vals normalizeFn =
     foldl (\<lambda>keys v. let v = normalizeFn v in if v = [] then keys else List.insert v keys) [] vals"

fun contains :: "string list \<Rightarrow> string \<Rightarrow> bool" where
  "contains [] item = False"
| "contains (s # slice) item = (if s = item then True else contains slice item)"

definition namespacesGVR :: GroupVersionResource where
  "namespacesGVR = \<lparr>Group = [], Version = ''v1'', Resource = ''namespaces''\<rparr>"

definition getNamespacesToBackup ::
  "'s DynamicClient \<Rightarrow> BackupOptions \<Rightarrow> 's \<Rightarrow> (api_error + string list) \<times> 's" where
  "getNamespacesToBackup bm opts s =
     (if length (IncludeNamespaces opts) > 0 then (Inr (IncludeNamespaces opts), s)
      else
        (case clientList bm namespacesGVR [] s of
           (Inl err, s') \<Rightarrow> (Inl err, s')
         | (Inr items, s') \<Rightarrow>
             (let excludeSet = makeStringSet (ExcludeNamespaces opts) TrimSpace in
              (Inr (map GetName
                      (filter (\<lambda>item. \<not> (length excludeSet > 0 \<and> GetName item \<in> set excludeSet))
                         items)), s'))))"





section \<open>Restore\<close>

text \<open>
  What reading an archive gives: \<open>os.Open\<close> or \<open>gzip.NewReader\<close> may fail; otherwise
  \<open>tarReader.Next\<close> yields entries until the end of the archive, or fails. The body of an
  entry is what \<open>io.ReadAll\<close> and \<open>json.Unmarshal\<close> make of it: a read error, a decoding
  error, or the decoded map, which is \<open>nil\<close> (\<open>None\<close>) for the JSON text \<open>null\<close>.
\<close>

datatype body = ReadFails | InvalidJSON | Decoded "obj option"

datatype tar_item = Entry bool string body | Broken

datatype archive_file = OpenFails | NotGzip | Tar "tar_item list"

type_synonym disk = "string \<Rightarrow> archive_file"

datatype restore_error =
    NoArchiveName
  | OpenFailed
  | GzipFailed
  | ReadArchiveFailed
  | ParseEntryFailed string parse_error
  | ReadDataFailed string
  | UnmarshalFailed string
  | MetadataFailed string
  | CreateFailed api_error
  | FetchExistingFailed api_error
  | UpdateFailed api_error

datatype 'a outcome = Returned 'a | Error restore_error | Panics

record archivedResource =
  res_gvr :: GroupVersionResource
  res_namespace :: string
  res_object :: obj

text \<open>
  \<open>ensureMetadata\<close>: \<open>None\<close> is the error \<open>resource missing metadata.name\<close>; writing
  \<open>obj["metadata"]\<close> into a \<open>nil\<close> map panics.
\<close>

definition ensureMetadata :: "obj option \<Rightarrow> string \<Rightarrow> string \<Rightarrow> obj option outcome" where
  "ensureMetadata decoded name namespace =
     (case decoded of
        None \<Rightarrow> Panics
      | Some ob \<Rightarrow>
          let metaObj = (case metadataOf ob of Some m \<Rightarrow> m | None \<Rightarrow> []);
              name = (case map_of metaObj ''name'' of
                        Some (JString existingName) \<Rightarrow>
                          if existingName \<noteq> [] then existingName else name
                      | _ \<Rightarrow> name)
          in if name = [] then Returned None
             else
               let metaObj = AList.update ''name'' (JString name) metaObj;
                   metaObj = (if namespace \<noteq> []
                              then AList.update ''namespace'' (JString namespace) metaObj
                              else metaObj)
               in Returned (Some (AList.update ''metadata'' (JObject metaObj) ob)))"

text \<open>
  The first loop of \<open>RestoreBackup\<close>. \<open>readEntry\<close> is one iteration, from the result of
  \<open>tarReader.Next\<close> on: \<open>Returned None\<close> where the iteration ends with \<open>continue\<close>,
  \<open>Returned (Some resource)\<close> where it appends a resource to one of the two lists.
\<close>

definition readEntry :: "tar_item \<Rightarrow> archivedResource option outcome" where
  "readEntry item =
     (case item of
        Broken \<Rightarrow> Error ReadArchiveFailed
      | Entry regular hname content \<Rightarrow>
          if \<not> regular then Returned None
          else if \<not> HasSuffix hname ''.json'' then Returned None
          else
            (case parseArchiveEntry hname of
               Inl err \<Rightarrow> Error (ParseEntryFailed hname err)
             | Inr (gvr, namespace, name) \<Rightarrow>
                 (case content of
                    ReadFails \<Rightarrow> Error (ReadDataFailed hname)
                  | InvalidJSON \<Rightarrow> Error (UnmarshalFailed hname)
                  | Decoded decoded \<Rightarrow>
                      (case ensureMetadata decoded name namespace of
                         Panics \<Rightarrow> Panics
                       | Error err \<Rightarrow> Error err
                       | Returned None \<Rightarrow> Error (MetadataFailed hname)
                       | Returned (Some ob) \<Rightarrow>
                           Returned (Some \<lparr>res_gvr = gvr, res_namespace = namespace,
                                           res_object = ob\<rparr>)))))"

fun readEntries ::
  "tar_item list \<Rightarrow> archivedResource list \<Rightarrow> archivedResource list
     \<Rightarrow> (archivedResource list \<times> archivedResource list) outcome" where
  "readEntries [] clusterResources namespacedResources =
     Returned (clusterResources, namespacedResources)"
| "readEntries (item # rest) clusterResources namespacedResources =
     (case readEntry item of
        Error err \<Rightarrow> Error err
      | Panics \<Rightarrow> Panics
      | Returned None \<Rightarrow> readEntries rest clusterResources namespacedResources
      | Returned (Some resource) \<Rightarrow>
          if res_namespace resource = [] then
            readEntries rest (clusterResources @ [resource]) namespacedResources
          else readEntries rest clusterResources (namespacedResources @ [resource]))"

text \<open>The body of the second loop: create, and on \<open>AlreadyExists\<close> fetch and update.\<close>

definition applyResource ::
  "'s DynamicClient \<Rightarrow> archivedResource \<Rightarrow> 's \<Rightarrow> restore_error option \<times> 's" where
  "applyResource bm res s =
     (let ob = (if res_namespace res \<noteq> [] then SetNamespace (res_object res) (res_namespace res)
                else res_object res)
      in case clientCreate bm (res_gvr res) (res_namespace res) ob s of
           (Inr created, s1) \<Rightarrow> (None, s1)
         | (Inl err, s1) \<Rightarrow>
             if err \<noteq> AlreadyExists then (Some (CreateFailed err), s1)
             else
               (case clientGet bm (res_gvr res) (res_namespace res) (GetName ob) s1 of
                  (Inl getErr, s2) \<Rightarrow> (Some (FetchExistingFailed getErr), s2)
                | (Inr existing, s2) \<Rightarrow>
                    (case clientUpdate bm (res_gvr res) (res_namespace res)
                            (SetResourceVersion ob (GetResourceVersion existing)) s2 of
                       (Inl err, s3) \<Rightarrow> (Some (UpdateFailed err), s3)
                     | (Inr updated, s3) \<Rightarrow> (None, s3))))"

fun applyList :: "'s DynamicClient \<Rightarrow> archivedResource list \<Rightarrow> nat \<Rightarrow> 's \<Rightarrow> nat outcome \<times> 's" where
  "applyList bm [] applied s = (Returned applied, s)"
| "applyList bm (res # rest) applied s =
     (case applyResource bm res s of
        (Some err, s') \<Rightarrow> (Error err, s')
      | (None, s') \<Rightarrow> applyList bm rest (applied + 1) s')"

fun applyLists ::
  "'s DynamicClient \<Rightarrow> archivedResource list list \<Rightarrow> nat \<Rightarrow> 's \<Rightarrow> nat outcome \<times> 's" where
  "applyLists bm [] applied s = (Returned applied, s)"
| "applyLists bm (rs # rss) applied s =
     (case applyList bm rs applied s of
        (Returned applied', s') \<Rightarrow> applyLists bm rss applied' s'
      | (failure, s') \<Rightarrow> (failure, s'))"

definition RestoreBackup ::
  "'s DynamicClient \<Rightarrow> disk \<Rightarrow> string \<Rightarrow> string \<Rightarrow> 's \<Rightarrow> nat outcome \<times> 's" where
  "RestoreBackup bm dsk storagePath archiveName s =
     (if archiveName = [] then (Error NoArchiveName, s)
      else
        (case dsk (Join [resolveStoragePath storagePath, archiveName]) of
           OpenFails \<Rightarrow> (Error OpenFailed, s)
         | NotGzip \<Rightarrow> (Error GzipFailed, s)
         | Tar items \<Rightarrow>
             (case readEntries items [] [] of
                Error err \<Rightarrow> (Error err, s)
              | Panics \<Rightarrow> (Panics, s)
              | Returned (clusterResources, namespacedResources) \<Rightarrow>
                  applyLists bm [clusterResources, namespacedResources] 0 s)))"

section \<open>Observing and answering the client's requests\<close>

text \<open>
  \<open>traced bm\<close> is the client \<open>bm\<close> with a log: every request is passed to \<open>bm\<close> and
  appended to the log together with the error it was answered with, if any.
\<close>

datatype request =
    ListReq GroupVersionResource string
  | CreateReq GroupVersionResource string obj
  | GetReq GroupVersionResource string string
  | UpdateReq GroupVersionResource string obj

type_synonym event = "request \<times> api_error option"

definition answer :: "api_error + 'a \<Rightarrow> api_error option" where
  "answer r = (case r of Inl err \<Rightarrow> Some err | Inr v \<Rightarrow> None)"

definition traced :: "'s DynamicClient \<Rightarrow> ('s \<times> event list) DynamicClient" where
  "traced bm =
     \<lparr>clientList = (\<lambda>gvr ns (s, log).
        case clientList bm gvr ns s of (r, s') \<Rightarrow> (r, (s', log @ [(ListReq gvr ns, answer r)]))),
      clientCreate = (\<lambda>gvr ns ob (s, log).
        case clientCreate bm gvr ns ob s of
          (r, s') \<Rightarrow> (r, (s', log @ [(CreateReq gvr ns ob, answer r)]))),
      clientGet = (\<lambda>gvr ns name (s, log).
        case clientGet bm gvr ns name s of
          (r, s') \<Rightarrow> (r, (s', log @ [(GetReq gvr ns name, answer r)]))),
      clientUpdate = (\<lambda>gvr ns ob (s, log).
        case clientUpdate bm gvr ns ob s of
          (r, s') \<Rightarrow> (r, (s', log @ [(UpdateReq gvr ns ob, answer r)])))\<rparr>"

definition requestNamespace :: "request \<Rightarrow> string" where
  "requestNamespace rq =
     (case rq of
        ListReq gvr ns \<Rightarrow> ns
      | CreateReq gvr ns ob \<Rightarrow> ns
      | GetReq gvr ns name \<Rightarrow> ns
      | UpdateReq gvr ns ob \<Rightarrow> ns)"

text \<open>
  A reference API server, to state what a restore does to a system: it stores objects
  under coordinate, namespace and name. Creating in a namespace needs the namespace
  object; creating an object that is stored answers \<open>AlreadyExists\<close>; fetching or updating
  one that is not stored answers \<open>NotFound\<close>; an update must carry the resource version
  of the stored object, else it answers \<open>Conflict\<close>; every write gives the object a new
  resource version.
\<close>

type_synonym objkey = "GroupVersionResource \<times> string \<times> string"

record cluster =
  objects :: "(objkey \<times> obj) list"
  revision :: nat

definition versionToken :: "nat \<Rightarrow> string" where
  "versionToken n = replicate (Suc n) CHR ''i''"

definition store :: "objkey \<Rightarrow> obj \<Rightarrow> cluster \<Rightarrow> (api_error + obj) \<times> cluster" where
  "store key ob c =
     (let stored = SetResourceVersion ob (versionToken (revision c))
      in (Inr stored,
          c\<lparr>objects := AList.update key stored (objects c), revision := Suc (revision c)\<rparr>))"

definition apiServer :: "cluster DynamicClient" where
  "apiServer =
     \<lparr>clientList = (\<lambda>gvr ns c.
        (Inr (map snd (filter (\<lambda>(key, ob). fst key = gvr \<and> (ns = [] \<or> fst (snd key) = ns))
                          (objects c))), c)),
      clientCreate = (\<lambda>gvr ns ob c.
        if ns \<noteq> [] \<and> map_of (objects c) (namespacesGVR, [], ns) = None then (Inl NotFound, c)
        else if map_of (objects c) (gvr, ns, GetName ob) \<noteq> None then (Inl AlreadyExists, c)
        else store (gvr, ns, GetName ob) ob c),
      clientGet = (\<lambda>gvr ns name c.
        case map_of (objects c) (gvr, ns, name) of
          None \<Rightarrow> (Inl NotFound, c)
        | Some existing \<Rightarrow> (Inr existing, c)),
      clientUpdate = (\<lambda>gvr ns ob c.
        case map_of (objects c) (gvr, ns, GetName ob) of
          None \<Rightarrow> (Inl NotFound, c)
        | Some existing \<Rightarrow>
            if GetResourceVersion ob \<noteq> GetResourceVersion existing then (Inl Conflict, c)
            else store (gvr, ns, GetName ob) ob c)\<rparr>"

text \<open>The entries of an archive that \<open>RestoreBackup\<close> reads as objects.\<close>

fun isJSONEntry :: "tar_item \<Rightarrow> bool" where
  "isJSONEntry (Entry regular hname content) = (regular \<and> HasSuffix hname ''.json'')"
| "isJSONEntry Broken = False"

text \<open>
  The failures of a restore in the words of the specification, to compare the code with.
  An item of the archive is rejected when the archive cannot be read at that point, or
  when it is a JSON entry whose path cannot be parsed, whose data cannot be read or
  whose body is not JSON. A JSON entry has a null body when its path can be parsed and
  its body is the JSON text \<open>null\<close>. A request is refused when a create is answered with
  an error other than \<open>AlreadyExists\<close>, or a fetch or an update with any error.
\<close>

fun rejectedEntry :: "tar_item \<Rightarrow> bool" where
  "rejectedEntry Broken = True"
| "rejectedEntry (Entry regular hname content) =
     (regular \<and> HasSuffix hname ''.json''
      \<and> (isl (parseArchiveEntry hname) \<or> content = ReadFails \<or> content = InvalidJSON))"

fun nullBody :: "tar_item \<Rightarrow> bool" where
  "nullBody Broken = False"
| "nullBody (Entry regular hname content) =
     (regular \<and> HasSuffix hname ''.json'' \<and> \<not> isl (parseArchiveEntry hname)
      \<and> content = Decoded None)"

fun refused :: "event \<Rightarrow> bool" where
  "refused (CreateReq gvr ns ob, Some err) = (err \<noteq> AlreadyExists)"
| "refused (GetReq gvr ns name, Some err) = True"
| "refused (UpdateReq gvr ns ob, Some err) = True"
| "refused ev = False"

definition itemsOf :: "archive_file \<Rightarrow> tar_item list" where
  "itemsOf archive = (case archive of Tar items \<Rightarrow> items | _ \<Rightarrow> [])"

text \<open>
  \<open>applied res\<close> is the object that the second loop sends for a resource, \<open>resourceKey\<close>
  the key under which the reference server stores it, \<open>namespaceKey\<close> the key of a
  namespace object, \<open>stored\<close> the keys of a system.

  A resource is updated in place when these are the requests made for it and their
  answers: the create of its object, answered \<open>AlreadyExists\<close>; the fetch of the object
  of that name, answered with an object; the update with its object carrying a resource
  version \<open>rv\<close>, answered without error.
\<close>

definition applied :: "archivedResource \<Rightarrow> obj" where
  "applied res =
     (if res_namespace res \<noteq> [] then SetNamespace (res_object res) (res_namespace res)
      else res_object res)"

definition inPlace :: "archivedResource \<Rightarrow> string \<Rightarrow> event list" where
  "inPlace res rv =
     [(CreateReq (res_gvr res) (res_namespace res) (applied res), Some AlreadyExists),
      (GetReq (res_gvr res) (res_namespace res) (GetName (applied res)), None),
      (UpdateReq (res_gvr res) (res_namespace res) (SetResourceVersion (applied res) rv), None)]"

definition resourceKey :: "archivedResource \<Rightarrow> objkey" where
  "resourceKey res = (res_gvr res, res_namespace res, GetName (res_object res))"

definition namespaceKey :: "string \<Rightarrow> objkey" where
  "namespaceKey ns = (namespacesGVR, [], ns)"

definition stored :: "cluster \<Rightarrow> objkey set" where
  "stored c = dom (map_of (objects c))"

text \<open>The archive of \<open>TestRestoreBackup\<close>, and an empty system.\<close>

definition namespaceObject :: obj where
  "namespaceObject =
     [(''apiVersion'', JString ''v1''), (''kind'', JString ''Namespace''),
      (''metadata'', JObject [(''name'', JString ''restore-ns'')])]"

definition configMapObject :: obj where
  "configMapObject =
     [(''apiVersion'', JString ''v1''), (''kind'', JString ''ConfigMap''),
      (''metadata'', JObject [(''name'', JString ''sample-config'')]),
      (''data'', JObject [(''key'', JString ''value'')])]"

definition writeRestoreArchive :: "tar_item list" where
  "writeRestoreArchive =
     [Entry True ''cluster/v1/namespaces/restore-ns.json'' (Decoded (Some namespaceObject)),
      Entry True ''namespaces/restore-ns/v1/configmaps/sample-config.json''
        (Decoded (Some configMapObject))]"

text \<open>The two resources that the first loop of \<open>RestoreBackup\<close> reads from that archive.\<close>

definition restoredNamespace :: archivedResource where
  "restoredNamespace =
     \<lparr>res_gvr = namespacesGVR, res_namespace = [], res_object = namespaceObject\<rparr>"

definition restoredConfigMap :: archivedResource where
  "restoredConfigMap =
     \<lparr>res_gvr = \<lparr>Group = [], Version = ''v1'', Resource = ''configmaps''\<rparr>,
      res_namespace = ''restore-ns'',
      res_object =
        [(''apiVersion'', JString ''v1''), (''kind'', JString ''ConfigMap''),
         (''metadata'',
          JObject [(''name'', JString ''sample-config''), (''namespace'', JString ''restore-ns'')]),
         (''data'', JObject [(''key'', JString ''value'')])]\<rparr>"

definition testDisk :: "tar_item list \<Rightarrow> disk" where
  "testDisk items =
     (\<lambda>path. if path = ''/var/backups/cluster-backup-restore.tar.gz'' then Tar items
             else OpenFails)"

definition emptyCluster :: cluster where
  "emptyCluster = \<lparr>objects = [], revision = 0\<rparr>"

section \<open>Properties of storage path resolution\<close>

lemma resolveStoragePath_literal:
  "\<not> HasPrefix storagePath ''host://'' \<Longrightarrow> resolveStoragePath storagePath = storagePath"
  by (simp add: resolveStoragePath_def)

lemma resolveStoragePath_examples:
  "resolveStoragePath ''/var/backups'' = ''/var/backups''"
  "resolveStoragePath ''host:///var/backups'' = ''/tmp/var/backups''"
  "resolveStoragePath ''host:///../etc'' = ''/tmp/etc''"
  "resolveStoragePath ''host://'' = ''/tmp''"
  by (simp_all add: resolveStoragePath_def HasPrefix_def TrimPrefix_def Clean_def cleanElem_def
      nodeTmp_def)

text \<open>
  Claim C1. Every \<open>host://\<close> destination, traversal payloads included, should resolve to a
  directory under the sandbox root \<open>/tmp\<close>, and never to \<open>/\<close>. The code tests whether the
  cleaned path starts with the characters \<open>/tmp\<close>, not whether its first element is
  \<open>tmp\<close>: for \<open>host:///tmp../etc\<close> the cleaned path is \<open>/tmp../etc\<close>, the text after \<open>/tmp\<close>
  is \<open>../etc\<close>, and joining it to \<open>/tmp\<close> gives \<open>/etc\<close>, outside the sandbox; for
  \<open>host:///tmp..\<close> the result is \<open>/\<close>.
\<close>

theorem resolveStoragePath_escapes:
  "resolveStoragePath ''host:///tmp../etc'' = ''/etc''
   \<and> resolveStoragePath ''host:///tmp..'' = ''/''"
  by (simp add: resolveStoragePath_def HasPrefix_def TrimPrefix_def Clean_def cleanElem_def
      nodeTmp_def)

section \<open>Properties of retention\<close>

text \<open>
  Claim C8. Where the resolved storage directory does not exist, \<open>CleanupArchives\<close>
  returns success and leaves the file system as it is, for every age threshold and count
  ceiling, set or not.
\<close>

theorem CleanupArchives_missing_directory:
  assumes "fs (resolveStoragePath storagePath) = Absent"
  shows "CleanupArchives now fs storagePath retentionDays maxArchives = (Success, fs)"
  using assms by (simp add: CleanupArchives_def ReadDir_def)

theorem CleanupArchives_missing_directory_witness:
  "(\<lambda>p. Absent) (resolveStoragePath ''/var/backups/missing'') = Absent
   \<and> CleanupArchives 0 (\<lambda>p. Absent) ''/var/backups/missing'' (Some 7) (Some 3)
       = (Success, \<lambda>p. Absent)"
  using CleanupArchives_missing_directory
    [of "\<lambda>p. Absent" "''/var/backups/missing''" 0 "Some 7" "Some 3"]
  by simp

section \<open>Properties of namespace resolution and resource selection\<close>

lemma contains_iff: "contains slice item \<longleftrightarrow> item \<in> set slice"
  by (induction slice) auto


lemma set_foldl_insert:
  "set (foldl (\<lambda>keys v. let v = f v in if v = [] then keys else List.insert v keys) acc vals)
     = set acc \<union> (f ` set vals - {[]})"
  by (induction vals arbitrary: acc) (auto simp: Let_def)

lemma set_makeStringSet: "set (makeStringSet vals f) = f ` set vals - {[]}"
proof (cases vals)
  case Nil
  then show ?thesis by simp
next
  case (Cons v vs)
  then show ?thesis using set_foldl_insert [of f "[]" "v # vs"] by simp
qed


lemma text_examples:
  "TrimSpace '' kube-system '' = ''kube-system''"
  "TrimSpace ([CHR 0xC2, CHR 0xA0] @ ''kube-system'' @ [CHR 0xE2, CHR 0x80, CHR 0xA8]) = ''kube-system''"
  "ToLower (TrimSpace ([CHR 0xC2, CHR 0xA0] @ ''pod'')) = ToLower ''Pod''"
  "ToLower ([CHR 0xC3, CHR 0x89] @ ''Tat'') = [CHR 0xC3, CHR 0xA9] @ ''tat''"
  by code_simp+

lemma nonempty_and_member: "(0 < length xs \<and> x \<in> set xs) = (x \<in> set xs)"
  by (cases xs) auto


text \<open>
  Claim C7, as the code has it. With a non-empty include list the result is that list and
  no request is made. Otherwise the namespaces are listed once; a failure of that call is
  the only error; the result is the list of the server's namespaces, in the server's
  order, without those whose name is a non-empty trimmed entry of the exclude list.
\<close>

theorem getNamespacesToBackup_result:
  "getNamespacesToBackup (traced bm) opts (s, log) =
     (if IncludeNamespaces opts \<noteq> [] then (Inr (IncludeNamespaces opts), (s, log))
      else
        (case clientList bm namespacesGVR [] s of
           (Inl err, s') \<Rightarrow> (Inl err, (s', log @ [(ListReq namespacesGVR [], Some err)]))
         | (Inr items, s') \<Rightarrow>
             (Inr (filter (\<lambda>ns. ns \<notin> TrimSpace ` set (ExcludeNamespaces opts) - {[]})
                     (map GetName items)),
              (s', log @ [(ListReq namespacesGVR [], None)]))))"
  unfolding getNamespacesToBackup_def traced_def nonempty_and_member set_makeStringSet Let_def
  by (auto simp: answer_def filter_map comp_def split: prod.splits sum.splits)

text \<open>
  Claim C7 as stated fails where an entry of the exclude list has white space around it:
  the server has \<open>default\<close> and \<open>kube-system\<close>, the exclude list is \<open>[" kube-system"]\<close>,
  which names no namespace of the server, and \<open>kube-system\<close> is removed all the same.
\<close>

theorem getNamespacesToBackup_trims_excludes:
  "fst (getNamespacesToBackup apiServer
          \<lparr>IncludeNamespaces = [], ExcludeNamespaces = ['' kube-system''],
           IncludeClusterResources = True, ResourceTypes = []\<rparr>
          \<lparr>objects =
             [((namespacesGVR, [], ''default''), [(''metadata'', JObject [(''name'', JString ''default'')])]),
              ((namespacesGVR, [], ''kube-system''),
               [(''metadata'', JObject [(''name'', JString ''kube-system'')])])],
           revision = 2\<rparr>)
     = Inr [''default'']
   \<and> filter (\<lambda>ns. ns \<notin> set ['' kube-system'']) [''default'', ''kube-system'']
       = [''default'', ''kube-system'']"
  by (simp add: getNamespacesToBackup_def apiServer_def namespacesGVR_def GetName_def
      NestedString_def metadataOf_def TrimSpace_def IsSpace_def DecodeLastRune_def)




section \<open>Properties of archive entry paths\<close>

lemma Split_nonempty: "Split s \<noteq> []"
  by (induction s) (auto split: list.splits)

lemma Split_no_separator: "CHR ''/'' \<notin> set e \<Longrightarrow> Split e = [e]"
  by (induction e) auto

lemma Split_append:
  "CHR ''/'' \<notin> set e \<Longrightarrow> Split (e @ CHR ''/'' # t) = e # Split t"
  by (induction e) (auto simp: Split_nonempty split: list.splits)

lemma Split_elements: "e \<in> set (Split s) \<Longrightarrow> CHR ''/'' \<notin> set e"
  by (induction s arbitrary: e) (auto split: if_splits list.splits)

lemma Split_JoinSep:
  "es \<noteq> [] \<Longrightarrow> \<forall>e\<in>set es. CHR ''/'' \<notin> set e \<Longrightarrow> Split (JoinSep es) = es"
  by (induction es rule: JoinSep.induct) (auto simp: Split_no_separator Split_append)

lemma JoinSep_append:
  "xs \<noteq> [] \<Longrightarrow> ys \<noteq> [] \<Longrightarrow> JoinSep (xs @ ys) = JoinSep xs @ CHR ''/'' # JoinSep ys"
  by (induction xs rule: JoinSep.induct) (auto simp: neq_Nil_conv)

lemma JoinSep_Cons: "es \<noteq> [] \<Longrightarrow> JoinSep (e # es) = e @ CHR ''/'' # JoinSep es"
  by (cases es) auto

lemma foldl_cleanElem:
  "\<forall>e\<in>set es. e = [] \<or> segment e \<Longrightarrow>
     foldl (cleanElem rooted) out es = out @ filter (\<lambda>e. e \<noteq> []) es"
  by (induction es arbitrary: out) (auto simp: cleanElem_def segment_def)

lemma cleanElem_rooted_segments:
  "\<forall>e\<in>set out. segment e \<Longrightarrow> CHR ''/'' \<notin> set e \<Longrightarrow>
     \<forall>e'\<in>set (cleanElem True out e). segment e'"
  by (auto simp: cleanElem_def segment_def dest: in_set_butlastD)

lemma foldl_cleanElem_segments:
  "\<forall>e\<in>set out. segment e \<Longrightarrow> \<forall>e\<in>set es. CHR ''/'' \<notin> set e \<Longrightarrow>
     \<forall>e'\<in>set (foldl (cleanElem True) out es). segment e'"
proof (induction es arbitrary: out)
  case Nil
  then show ?case by simp
next
  case (Cons e es)
  have "\<forall>e'\<in>set (cleanElem True out e). segment e'"
    using Cons.prems by (intro cleanElem_rooted_segments) auto
  then show ?case using Cons by simp
qed

lemma Clean_rooted_shape:
  assumes "HasPrefix p ''/''"
  shows "\<exists>out. Clean p = CHR ''/'' # JoinSep out \<and> (\<forall>e\<in>set out. segment e)"
proof -
  from assms have p: "p \<noteq> []" "hd p = CHR ''/''"
    by (cases p; simp add: HasPrefix_def)+
  have "\<forall>e'\<in>set (foldl (cleanElem True) [] (Split p)). segment e'"
    by (rule foldl_cleanElem_segments) (auto dest: Split_elements)
  then show ?thesis using p by (auto simp: Clean_def Let_def)
qed

lemma segment_nonempty: "segment e \<Longrightarrow> e \<noteq> []"
  by (simp add: segment_def)

lemma segment_hd: "segment e \<Longrightarrow> hd e \<noteq> CHR ''/''"
  by (cases e) (auto simp: segment_def)

lemma segment_no_separator: "segment e \<Longrightarrow> CHR ''/'' \<notin> set e"
  by (simp add: segment_def)

lemma elements_no_separator:
  assumes "\<forall>e\<in>set es. e = [] \<or> segment e"
  shows "\<forall>e\<in>set es. CHR ''/'' \<notin> set e"
proof
  fix e assume "e \<in> set es"
  with assms have "e = [] \<or> segment e" by blast
  then show "CHR ''/'' \<notin> set e"
  proof
    assume "e = []" then show ?thesis by simp
  next
    assume "segment e" then show ?thesis by (rule segment_no_separator)
  qed
qed

lemma Clean_rooted:
  assumes "\<forall>e\<in>set es. e = [] \<or> segment e"
  shows "Clean (CHR ''/'' # JoinSep es) = CHR ''/'' # JoinSep (filter (\<lambda>e. e \<noteq> []) es)"
proof -
  have c0: "cleanElem True [] [] = []" by (simp add: cleanElem_def)
  have fold: "foldl (cleanElem True) [] ([] # es) = filter (\<lambda>e. e \<noteq> []) es"
    using foldl_cleanElem [OF assms, of True "[]"] by (simp add: c0)
  have sp: "foldl (cleanElem True) [] (Split (CHR ''/'' # JoinSep es)) = filter (\<lambda>e. e \<noteq> []) es"
  proof (cases "es = []")
    case True
    then show ?thesis by (simp add: c0)
  next
    case False
    have ns: "\<forall>e\<in>set es. CHR ''/'' \<notin> set e" using assms by (rule elements_no_separator)
    have sp0: "Split (CHR ''/'' # JoinSep es) = [] # es"
      by (simp add: Split_JoinSep [OF False ns])
    show ?thesis unfolding sp0 by (rule fold)
  qed
  show ?thesis by (simp add: Clean_def Let_def sp del: Split.simps foldl.simps)
qed

lemma JoinSep_segments_hd:
  assumes "es \<noteq> []" "\<forall>e\<in>set es. segment e"
  shows "JoinSep es \<noteq> [] \<and> hd (JoinSep es) \<noteq> CHR ''/''"
proof (cases es)
  case Nil
  with assms show ?thesis by simp
next
  case (Cons e es')
  with assms have e: "e \<noteq> []" "hd e \<noteq> CHR ''/''"
    by (simp_all add: segment_nonempty segment_hd)
  show ?thesis
  proof (cases es')
    case Nil
    with Cons e show ?thesis by simp
  next
    case (Cons e' es'')
    with \<open>es = e # es'\<close> e show ?thesis by simp
  qed
qed

lemma filter_segments: "\<forall>e\<in>set es. segment e \<Longrightarrow> filter (\<lambda>e. e \<noteq> []) es = es"
  by (induction es) (simp_all add: segment_nonempty)

lemma Clean_relative:
  assumes "es \<noteq> []" "\<forall>e\<in>set es. segment e"
  shows "Clean (JoinSep es) = JoinSep es"
proof -
  have ns: "\<forall>e\<in>set es. CHR ''/'' \<notin> set e"
    using assms(2) by (simp add: segment_no_separator)
  have f: "foldl (cleanElem False) [] (Split (JoinSep es)) = es"
    using foldl_cleanElem [of es False "[]"] assms
    by (simp add: filter_segments Split_JoinSep [OF assms(1) ns])
  show ?thesis
    using JoinSep_segments_hd [OF assms] assms(1) by (simp add: Clean_def f)
qed

lemma dropCommon_prefix: "dropCommon xs (xs @ ys) = ([], ys)"
  by (induction xs) simp_all

lemma JoinSep_longer:
  "xs \<noteq> [] \<Longrightarrow> ys \<noteq> [] \<Longrightarrow> JoinSep (xs @ ys) \<noteq> JoinSep xs"
  by (simp add: JoinSep_append)

lemma Rel_below:
  assumes tc: "tc \<noteq> []" "\<forall>e\<in>set tc. segment e"
    and rest: "rest \<noteq> []" "\<forall>e\<in>set rest. segment e"
  shows "Rel (CHR ''/'' # JoinSep tc) (CHR ''/'' # JoinSep (tc @ rest)) = Some (JoinSep rest)"
proof -
  have cb: "Clean (CHR ''/'' # JoinSep tc) = CHR ''/'' # JoinSep tc"
    using tc by (simp add: Clean_rooted filter_segments)
  have ct: "Clean (CHR ''/'' # JoinSep (tc @ rest)) = CHR ''/'' # JoinSep (tc @ rest)"
    using tc rest by (subst Clean_rooted) (auto simp: filter_segments)
  have ne: "JoinSep tc \<noteq> []" "JoinSep (tc @ rest) \<noteq> []"
    using JoinSep_segments_hd [of tc] JoinSep_segments_hd [of "tc @ rest"] tc rest by auto
  have ns: "\<forall>e\<in>set tc. CHR ''/'' \<notin> set e" "\<forall>e\<in>set (tc @ rest). CHR ''/'' \<notin> set e"
    using tc rest by (auto simp: segment_no_separator)
  have nt: "tc @ rest \<noteq> []" using tc(1) by simp
  have eb: "elems (CHR ''/'' # JoinSep tc) = [] # tc"
    using ne by (simp add: elems_def Split_JoinSep [OF tc(1) ns(1)])
  have et: "elems (CHR ''/'' # JoinSep (tc @ rest)) = [] # tc @ rest"
    using ne by (simp add: elems_def Split_JoinSep [OF nt ns(2)])
  have dc: "dropCommon (elems (CHR ''/'' # JoinSep tc)) (elems (CHR ''/'' # JoinSep (tc @ rest)))
              = ([], rest)"
    unfolding eb et using dropCommon_prefix [of "[] # tc" rest] by simp
  have neq: "CHR ''/'' # JoinSep (tc @ rest) \<noteq> CHR ''/'' # JoinSep tc"
    using JoinSep_longer [OF tc(1) rest(1)] by simp
  have nd: "CHR ''/'' # JoinSep tc \<noteq> ''.''" by simp
  show ?thesis
    unfolding Rel_def cb ct Let_def using neq nd by (simp add: dc)
qed

lemma Join_rooted:
  assumes tc: "tc \<noteq> []" "\<forall>e\<in>set tc. segment e"
    and es: "es \<noteq> []" "\<forall>e\<in>set es. e = [] \<or> segment e"
  shows "Join ((CHR ''/'' # JoinSep tc) # es)
           = CHR ''/'' # JoinSep (tc @ filter (\<lambda>e. e \<noteq> []) es)"
proof -
  have "JoinSep ((CHR ''/'' # JoinSep tc) # es) = CHR ''/'' # JoinSep (tc @ es)"
    using tc(1) es(1) by (simp add: JoinSep_Cons JoinSep_append)
  moreover have "Clean (CHR ''/'' # JoinSep (tc @ es))
      = CHR ''/'' # JoinSep (tc @ filter (\<lambda>e. e \<noteq> []) es)"
    using tc es by (subst Clean_rooted) (auto simp: filter_segments)
  ultimately show ?thesis using tc(1) by (cases tc) auto
qed

lemma TrimSuffix_append: "TrimSuffix (name @ suf) suf = name"
  by (simp add: TrimSuffix_def HasSuffix_def)

lemma parse_shape:
  assumes seg: "\<forall>e\<in>set (scope # remainder). segment e" "name \<noteq> []" "CHR ''/'' \<notin> set name"
  shows "Split (Clean (JoinSep (scope # remainder @ [name @ ''.json''])))
           = scope # remainder @ [name @ ''.json'']"
proof -
  let ?es = "scope # remainder @ [name @ ''.json'']"
  have f: "segment (name @ ''.json'')" using assms(2,3) by (cases name) (simp_all add: segment_def)
  have seg': "\<forall>e\<in>set ?es. segment e" using seg(1) f by auto
  then have ns: "\<forall>e\<in>set ?es. CHR ''/'' \<notin> set e"
    using assms(3) by (simp add: segment_no_separator)
  have "Clean (JoinSep ?es) = JoinSep ?es" by (rule Clean_relative [OF _ seg']) simp
  moreover have "Split (JoinSep ?es) = ?es" by (rule Split_JoinSep [OF _ ns]) simp
  ultimately show ?thesis by simp
qed

lemma parse_entry_name:
  assumes rem: "\<forall>e\<in>set (scope # remainder). segment e" "name \<noteq> []" "CHR ''/'' \<notin> set name"
  shows "parseArchiveEntry (JoinSep (scope # remainder @ [name @ ''.json''])) =
     (if scope = ''cluster'' then
        (case coordinate remainder of
           None \<Rightarrow> Inl BadClusterPath
         | Some gvr \<Rightarrow> Inr (gvr, [], name))
      else if scope = ''namespaces'' then
        (case remainder of
           [] \<Rightarrow> Inl BadNamespacedPath
         | [namespace] \<Rightarrow> Inl BadNamespacedPath
         | namespace # remainder' \<Rightarrow>
             (case coordinate remainder' of
                None \<Rightarrow> Inl BadNamespacedPath
              | Some gvr \<Rightarrow> Inr (gvr, namespace, name)))
      else Inl UnrecognisedPrefix)"
proof -
  have l: "last (scope # remainder @ [name @ ''.json'']) = name @ ''.json''"
    by (metis append_Cons last_snoc)
  have b: "butlast (scope # remainder @ [name @ ''.json'']) = scope # remainder"
    by (metis append_Cons butlast_snoc)
  show ?thesis
    unfolding parseArchiveEntry_def parse_shape [OF assms] Let_def l b TrimSuffix_append
    using assms(2) by simp
qed

lemma entryName_below:
  assumes tmp: "tempDir = CHR ''/'' # JoinSep tc" "tc \<noteq> []" "\<forall>e\<in>set tc. segment e"
    and segs: "segs \<noteq> []" "\<forall>e\<in>set segs. segment e"
    and dir: "dirPath tempDir gvr namespace = CHR ''/'' # JoinSep (tc @ segs)"
    and name: "name \<noteq> []" "CHR ''/'' \<notin> set name"
  shows "entryName tempDir gvr namespace name = Some (JoinSep (segs @ [name @ ''.json'']))"
proof -
  have f: "segment (name @ ''.json'')" using name by (cases name) (simp_all add: segment_def)
  have "filename tempDir gvr namespace name
          = Join [CHR ''/'' # JoinSep (tc @ segs), name @ ''.json'']"
    by (simp only: filename_def dir)
  also have "\<dots> = CHR ''/'' # JoinSep ((tc @ segs) @ filter (\<lambda>e. e \<noteq> []) [name @ ''.json''])"
    using tmp(2,3) segs(2) f by (intro Join_rooted) auto
  also have "\<dots> = CHR ''/'' # JoinSep (tc @ (segs @ [name @ ''.json'']))"
    using name(1) by simp
  finally have fl: "filename tempDir gvr namespace name
      = CHR ''/'' # JoinSep (tc @ (segs @ [name @ ''.json'']))" .
  show ?thesis
    unfolding entryName_def fl unfolding tmp(1)
    using tmp(2,3) segs f by (intro Rel_below) auto
qed

text \<open>
  Claim C3. The staging directory is a cleaned absolute path other than the root, as
  \<open>os.MkdirTemp\<close> gives it; version, resource and, where present, group and namespace are
  path elements, and the object name is not empty and has no separator, as the names of
  Kubernetes objects are. The name of the tar entry written for such an object is then
  \<open>cluster/<group?>/<version>/<resource>/<name>.json\<close> or
  \<open>namespaces/<namespace>/<group?>/<version>/<resource>/<name>.json\<close>, the group element
  being left out for the core group, and \<open>parseArchiveEntry\<close> gives back exactly the
  coordinate, the namespace (empty for cluster scope) and the name.
\<close>

theorem archive_path_round_trip:
  assumes tmp: "Clean tempDir = tempDir" "HasPrefix tempDir ''/''" "tempDir \<noteq> ''/''"
    and ver: "segment (Version gvr)" and res: "segment (Resource gvr)"
    and grp: "Group gvr = [] \<or> segment (Group gvr)"
    and nsp: "namespace = [] \<or> segment namespace"
    and name: "name \<noteq> []" "CHR ''/'' \<notin> set name"
  shows "entryName tempDir gvr namespace name
           = Some (JoinSep ((if namespace = [] then [''cluster''] else [''namespaces'', namespace])
                            @ (if Group gvr = [] then [] else [Group gvr])
                            @ [Version gvr, Resource gvr, name @ ''.json'']))
         \<and> parseArchiveEntry
               (JoinSep ((if namespace = [] then [''cluster''] else [''namespaces'', namespace])
                         @ (if Group gvr = [] then [] else [Group gvr])
                         @ [Version gvr, Resource gvr, name @ ''.json'']))
             = Inr (gvr, namespace, name)"
proof -
  obtain tc where tc: "tempDir = CHR ''/'' # JoinSep tc" "\<forall>e\<in>set tc. segment e"
    using Clean_rooted_shape [OF tmp(2)] tmp(1) by auto
  have tcne: "tc \<noteq> []" using tc(1) tmp(3) by auto
  define scope where "scope = (if namespace = [] then [''cluster''] else [''namespaces'', namespace])"
  define coord where "coord = (if Group gvr = [] then [] else [Group gvr]) @ [Version gvr, Resource gvr]"
  have sc: "segment ''cluster''" "segment ''namespaces''" by (simp_all add: segment_def)
  have segs: "scope @ coord \<noteq> []" "\<forall>e\<in>set (scope @ coord). segment e"
    using ver res grp nsp sc by (auto simp: scope_def coord_def)
  have filt: "filter (\<lambda>e. e \<noteq> []) (scope @ [Group gvr, Version gvr, Resource gvr]) = scope @ coord"
    using ver res nsp sc by (auto simp: scope_def coord_def segment_nonempty)
  have "dirPath tempDir gvr namespace
          = Join ((CHR ''/'' # JoinSep tc) # scope @ [Group gvr, Version gvr, Resource gvr])"
    by (simp add: dirPath_def scope_def tc(1))
  also have "\<dots> = CHR ''/'' # JoinSep (tc @ filter (\<lambda>e. e \<noteq> [])
                        (scope @ [Group gvr, Version gvr, Resource gvr]))"
    using tcne tc(2) ver res grp nsp sc by (intro Join_rooted) (auto simp: scope_def)
  finally have dir: "dirPath tempDir gvr namespace = CHR ''/'' # JoinSep (tc @ (scope @ coord))"
    by (simp only: filt)
  have entry: "entryName tempDir gvr namespace name
                 = Some (JoinSep ((scope @ coord) @ [name @ ''.json'']))"
    by (rule entryName_below [OF tc(1) tcne tc(2) segs dir name])
  have eq: "gvr = \<lparr>Group = Group gvr, Version = Version gvr, Resource = Resource gvr\<rparr>" by simp
  have parse: "parseArchiveEntry (JoinSep ((scope @ coord) @ [name @ ''.json'']))
                 = Inr (gvr, namespace, name)"
  proof (cases "namespace = []")
    case True
    then have s: "(scope @ coord) @ [name @ ''.json''] = ''cluster'' # coord @ [name @ ''.json'']"
      by (simp add: scope_def)
    have "\<forall>e\<in>set (''cluster'' # coord). segment e" using segs(2) True by (simp add: scope_def)
    from parse_entry_name [OF this name] show ?thesis
      unfolding s using True eq by (auto simp: coord_def)
  next
    case False
    then have s: "(scope @ coord) @ [name @ ''.json'']
                    = ''namespaces'' # (namespace # coord) @ [name @ ''.json'']"
      by (simp add: scope_def)
    have "\<forall>e\<in>set (''namespaces'' # (namespace # coord)). segment e"
      using segs(2) False by (simp add: scope_def)
    from parse_entry_name [OF this name] show ?thesis
      unfolding s using False eq by (auto simp: coord_def)
  qed
  show ?thesis using entry parse by (simp add: scope_def coord_def)
qed

theorem archive_path_round_trip_witness:
  "Clean ''/tmp/cluster-backup-1'' = ''/tmp/cluster-backup-1''
   \<and> entryName ''/tmp/cluster-backup-1'' \<lparr>Group = ''apps'', Version = ''v1'', Resource = ''deployments''\<rparr>
        ''prod'' ''web'' = Some ''namespaces/prod/apps/v1/deployments/web.json''
   \<and> parseArchiveEntry ''namespaces/prod/apps/v1/deployments/web.json''
       = Inr (\<lparr>Group = ''apps'', Version = ''v1'', Resource = ''deployments''\<rparr>, ''prod'', ''web'')"
proof -
  have c: "Clean ''/tmp/cluster-backup-1'' = ''/tmp/cluster-backup-1''"
    by (simp add: Clean_def cleanElem_def)
  show ?thesis
    using c archive_path_round_trip [OF c, of "\<lparr>Group = ''apps'', Version = ''v1'', Resource = ''deployments''\<rparr>"
      "''prod''" "''web''"]
    by (simp add: HasPrefix_def segment_def)
qed

section \<open>Retention: what is removed and what is left\<close>

lemma Split_snoc: "CHR ''/'' \<notin> set n \<Longrightarrow> Split (p @ CHR ''/'' # n) = Split p @ [n]"
  by (induction p) (auto simp: Split_no_separator Split_nonempty split: list.splits)

lemma cleanElem_segment: "segment n \<Longrightarrow> cleanElem rooted out n = out @ [n]"
  by (simp add: cleanElem_def segment_def)

lemma cleanElem_written:
  "\<forall>e\<in>set out. e \<noteq> [] \<and> e \<noteq> ''.'' \<Longrightarrow>
     \<forall>e'\<in>set (cleanElem rooted out e). e' \<noteq> [] \<and> e' \<noteq> ''.''"
  by (auto simp: cleanElem_def dest: in_set_butlastD)

lemma foldl_cleanElem_written:
  "\<forall>e\<in>set out. e \<noteq> [] \<and> e \<noteq> ''.'' \<Longrightarrow>
     \<forall>e'\<in>set (foldl (cleanElem rooted) out es). e' \<noteq> [] \<and> e' \<noteq> ''.''"
proof (induction es arbitrary: out)
  case Nil
  then show ?case by simp
next
  case (Cons e es)
  have "\<forall>e'\<in>set (cleanElem rooted out e). e' \<noteq> [] \<and> e' \<noteq> ''.''"
    using Cons.prems by (rule cleanElem_written)
  from Cons.IH [OF this] show ?case by simp
qed

lemma JoinSep_written:
  assumes "out \<noteq> []" "\<forall>e\<in>set out. e \<noteq> [] \<and> e \<noteq> ''.''"
  shows "JoinSep out \<noteq> []" "JoinSep out \<noteq> ''.''"
proof -
  obtain e rest where out: "out = e # rest" using assms(1) by (cases out) auto
  with assms(2) have e: "e \<noteq> []" "e \<noteq> ''.''" by simp_all
  show "JoinSep out \<noteq> []" using e(1) out by (cases rest) simp_all
  show "JoinSep out \<noteq> ''.''"
  proof (cases rest)
    case Nil
    with out e(2) show ?thesis by simp
  next
    case (Cons e' rest')
    have "CHR ''/'' \<in> set (JoinSep out)" unfolding out Cons by simp
    then show ?thesis by auto
  qed
qed

text \<open>
  Joining a name to a directory path in cleaned form gives the path of the entry of that
  name in that directory.
\<close>

lemma Join_child:
  assumes cl: "Clean p = p" and seg: "segment n"
  shows "Join [p, n] = (if p = ''/'' then CHR ''/'' # n else if p = ''.'' then n
                        else p @ CHR ''/'' # n)"
proof -
  have p: "p \<noteq> []" using cl by (auto simp: Clean_def)
  define rooted where "rooted = (hd p = CHR ''/'')"
  define out where "out = foldl (cleanElem rooted) [] (Split p)"
  have n: "CHR ''/'' \<notin> set n" using seg by (simp add: segment_def)
  have w: "\<forall>e\<in>set out. e \<noteq> [] \<and> e \<noteq> ''.''"
    unfolding out_def by (rule foldl_cleanElem_written) simp
  have "Clean p = (if rooted then CHR ''/'' # JoinSep out else if out = [] then ''.''
                   else JoinSep out)"
    unfolding Clean_def Let_def rooted_def out_def by (simp only: p if_False)
  then have shape: "p = (if rooted then CHR ''/'' # JoinSep out else if out = [] then ''.''
                         else JoinSep out)"
    by (rule trans [OF cl [symmetric]])
  have fold: "foldl (cleanElem rooted) [] (Split (p @ CHR ''/'' # n)) = out @ [n]"
    by (simp add: Split_snoc [OF n] out_def cleanElem_segment [OF seg])
  have child: "Clean (p @ CHR ''/'' # n)
                 = (if rooted then CHR ''/'' # JoinSep (out @ [n]) else JoinSep (out @ [n]))"
    unfolding Clean_def Let_def hd_append2 [OF p] rooted_def [symmetric] fold by simp
  have j: "Join [p, n] = Clean (p @ CHR ''/'' # n)" using p by simp
  show ?thesis
  proof (cases "out = []")
    case True
    then have "p = (if rooted then ''/'' else ''.'')" using shape by simp
    then show ?thesis unfolding j child using True by auto
  next
    case False
    note jw = JoinSep_written [OF False w]
    have app: "JoinSep (out @ [n]) = JoinSep out @ CHR ''/'' # n"
      using False by (simp add: JoinSep_append)
    show ?thesis
    proof (cases rooted)
      case True
      then have pp: "p = CHR ''/'' # JoinSep out" using shape by simp
      have "p \<noteq> ''/''" "p \<noteq> ''.''" using pp jw(1) by auto
      then show ?thesis unfolding j child app using True pp by simp
    next
      case nr: False
      then have pp: "p = JoinSep out" using shape False by simp
      have "p \<noteq> ''/''" using nr p by (auto simp: rooted_def)
      moreover have "p \<noteq> ''.''" using pp jw(2) by simp
      ultimately show ?thesis unfolding j child app using nr pp by simp
    qed
  qed
qed

lemma splitPath_child:
  assumes n: "CHR ''/'' \<notin> set n"
  shows "splitPath (p @ CHR ''/'' # n) = (if p = [] then ''/'' else p, n)"
proof -
  have "takeWhile (\<lambda>c. c \<noteq> CHR ''/'') (rev n @ CHR ''/'' # rev p)
          = rev n @ takeWhile (\<lambda>c. c \<noteq> CHR ''/'') (CHR ''/'' # rev p)"
    by (rule takeWhile_append2) (use n in auto)
  then show ?thesis by (simp add: splitPath_def Let_def)
qed

lemma splitPath_Join:
  assumes cl: "Clean p = p" and seg: "segment n"
  shows "splitPath (Join [p, n]) = (p, n)"
proof -
  have n: "CHR ''/'' \<notin> set n" using seg by (simp add: segment_def)
  have p: "p \<noteq> []" using cl by (auto simp: Clean_def)
  consider "p = ''/''" | "p = ''.''" | "p \<noteq> ''/''" "p \<noteq> ''.''" by blast
  then show ?thesis
  proof cases
    case 1
    then have eq: "Join [p, n] = [] @ CHR ''/'' # n" unfolding Join_child [OF cl seg] by simp
    show ?thesis unfolding eq splitPath_child [OF n] using 1 by simp
  next
    case 2
    then have eq: "Join [p, n] = n" unfolding Join_child [OF cl seg] by simp
    show ?thesis unfolding eq using n 2 by (simp add: splitPath_def)
  next
    case 3
    then have eq: "Join [p, n] = p @ CHR ''/'' # n" unfolding Join_child [OF cl seg] by simp
    show ?thesis unfolding eq splitPath_child [OF n] using p by simp
  qed
qed

lemma Remove_Join:
  assumes "Clean dir = dir" "segment name"
  shows "Remove fs (Join [dir, name]) = unlink fs dir name"
  unfolding Remove_def splitPath_Join [OF assms] by simp

text \<open>
  Where the path of the directory is not in cleaned form, the joined path need not name
  an entry of the directory of that path: \<open>filepath.Join\<close> resolves \<open>..\<close> in the text.
\<close>

lemma splitPath_Join_unclean:
  "splitPath (Join [''/data/link/..'', ''cluster-backup-1.tar.gz''])
     = (''/data'', ''cluster-backup-1.tar.gz'')"
  by code_simp

text \<open>The resolved path of a \<open>host://\<close> destination is in cleaned form.\<close>

lemma Clean_idem_rooted:
  assumes "HasPrefix p ''/''"
  shows "Clean (Clean p) = Clean p"
proof -
  from Clean_rooted_shape [OF assms] obtain out where
    out: "Clean p = CHR ''/'' # JoinSep out" "\<forall>e\<in>set out. segment e" by blast
  have "\<forall>e\<in>set out. e = [] \<or> segment e" using out(2) by simp
  from Clean_rooted [OF this] show ?thesis
    unfolding out(1) by (simp only: filter_segments [OF out(2)])
qed

lemma resolveStoragePath_host_cleaned:
  assumes "HasPrefix storagePath ''host://''"
  shows "Clean (resolveStoragePath storagePath) = resolveStoragePath storagePath"
proof -
  have j: "Join [nodeTmp, x] = Clean (nodeTmp @ CHR ''/'' # x)" for x
    by (simp add: nodeTmp_def)
  have r: "HasPrefix (nodeTmp @ CHR ''/'' # x) ''/''" for x
    by (simp add: nodeTmp_def HasPrefix_def)
  have t: "Clean nodeTmp = nodeTmp"
    by (simp add: nodeTmp_def Clean_def cleanElem_def)
  show ?thesis
    unfolding resolveStoragePath_def Let_def j
    using assms by (simp add: Clean_idem_rooted [OF r] t)
qed

lemma isArchive_segment:
  assumes "isArchive e" "CHR ''/'' \<notin> set (Name e)"
  shows "segment (Name e)"
proof -
  from assms(1) have "HasPrefix (Name e) ''cluster-backup-''" by (simp add: isArchive_def)
  then obtain rest where r: "Name e = ''cluster-backup-'' @ rest"
    unfolding HasPrefix_def by (metis append_take_drop_id)
  have "Name e \<noteq> []" "Name e \<noteq> ''.''" "Name e \<noteq> ''..''" unfolding r by simp_all
  with assms(2) show ?thesis by (simp add: segment_def)
qed



lemma filter_names_none: "filter (\<lambda>e. Name e \<notin> {}) es = es"
  by simp

lemma filter_names_one: "filter (\<lambda>e. Name e \<noteq> n) es = filter (\<lambda>e. Name e \<notin> {n}) es"
  by simp








lemma set_archiveFiles: "set (archiveFiles es) = {e \<in> set es. isArchive e}"
  by (auto simp: archiveFiles_def)





lemma CleanupArchives_no_directory:
  assumes "fs (resolveStoragePath storagePath) = Absent
           \<or> fs (resolveStoragePath storagePath) = Unreadable"
  shows "snd (CleanupArchives now fs storagePath retentionDays maxArchives) = fs"
  using assms by (auto simp: CleanupArchives_def ReadDir_def)

lemma find_by_name:
  assumes "distinct (map Name es)" "f \<in> set es"
  shows "find (\<lambda>e. Name e = Name f) es = Some f"
  using assms
proof (induction es)
  case Nil
  then show ?case by simp
next
  case (Cons e es)
  show ?case
  proof (cases "e = f")
    case True
    then show ?thesis by simp
  next
    case False
    with Cons.prems have f: "f \<in> set es" by simp
    with Cons.prems(1) have "Name e \<noteq> Name f" by auto
    with Cons.IH f Cons.prems(1) show ?thesis by simp
  qed
qed

lemma filter_by_name:
  assumes "distinct (map Name es)" "f \<in> set es"
  shows "filter (\<lambda>e. Name e \<noteq> Name f) es = filter (\<lambda>e. e \<noteq> f) es"
proof (rule filter_cong [OF refl])
  fix e assume "e \<in> set es"
  with assms have "Name e = Name f \<longleftrightarrow> e = f"
    by (auto simp: distinct_map dest: inj_onD)
  then show "(Name e \<noteq> Name f) = (e \<noteq> f)" by simp
qed

lemma Remove_present:
  assumes "fs dir = Dir es" "distinct (map Name es)" "f \<in> set es" "removable f"
    and "Clean dir = dir" "segment (Name f)"
  shows "Remove fs (Join [dir, Name f]) = (None, fs(dir := Dir (filter (\<lambda>e. e \<noteq> f) es)))"
  unfolding Remove_Join [OF assms(5,6)]
  using assms(1-4) by (simp add: unlink_def find_by_name filter_by_name)

lemma removeExpired_exact:
  assumes "fs dir = Dir es" "distinct (map Name es)" "set files \<subseteq> set es" "distinct files"
    "\<forall>f\<in>set files. \<exists>modTime. Info f = Some modTime \<and> removable f"
    and cl: "Clean dir = dir" and seg: "\<forall>e\<in>set es. isArchive e \<longrightarrow> segment (Name e)"
    and arch: "\<forall>f\<in>set files. isArchive f"
  shows "removeExpired fs dir cutT files
           = (None, fs(dir := Dir (filter (\<lambda>e. \<not> (e \<in> set files \<and> the (Info e) < cutT)) es)))"
  using assms
proof (induction files arbitrary: fs es)
  case Nil
  then show ?case by (simp add: fun_upd_idem)
next
  case (Cons f files)
  from Cons.prems(5) obtain modTime where mt: "Info f = Some modTime" "removable f" by auto
  have fin: "f \<in> set es" "f \<notin> set files" using Cons.prems(3,4) by auto
  have rest: "set files \<subseteq> set es" "distinct files"
    "\<forall>f\<in>set files. \<exists>modTime. Info f = Some modTime \<and> removable f"
    "\<forall>f\<in>set files. isArchive f"
    using Cons.prems(3,4,5,8) by auto
  have sf: "segment (Name f)" using Cons.prems(7,8) fin(1) by auto
  show ?case
  proof (cases "modTime < cutT")
    case False
    have "filter (\<lambda>e. \<not> (e \<in> set (f # files) \<and> the (Info e) < cutT)) es
            = filter (\<lambda>e. \<not> (e \<in> set files \<and> the (Info e) < cutT)) es"
      using False mt(1) by (intro filter_cong) auto
    with Cons.IH [of fs es, OF Cons.prems(1,2) rest(1,2,3) cl Cons.prems(7) rest(4)] mt(1) False
    show ?thesis by simp
  next
    case True
    let ?es1 = "filter (\<lambda>e. e \<noteq> f) es"
    let ?fs1 = "fs(dir := Dir ?es1)"
    have rm: "Remove fs (Join [dir, Name f]) = (None, ?fs1)"
      by (rule Remove_present [of fs dir es f, OF Cons.prems(1,2) fin(1) mt(2) cl sf])
    have seg1: "\<forall>e\<in>set ?es1. isArchive e \<longrightarrow> segment (Name e)" using Cons.prems(7) by simp
    have d1: "?fs1 dir = Dir ?es1" by simp
    have dist1: "distinct (map Name ?es1)" using Cons.prems(2) by (rule distinct_map_filter)
    have sub1: "set files \<subseteq> set ?es1" using rest(1) fin(2) by auto
    have flt: "filter (\<lambda>e. \<not> (e \<in> set files \<and> the (Info e) < cutT)) ?es1
            = filter (\<lambda>e. \<not> (e \<in> set (f # files) \<and> the (Info e) < cutT)) es"
      unfolding filter_filter using True mt(1) by (intro filter_cong) auto
    have ih: "removeExpired ?fs1 dir cutT files
        = (None, ?fs1(dir := Dir (filter (\<lambda>e. \<not> (e \<in> set files \<and> the (Info e) < cutT)) ?es1)))"
      by (rule Cons.IH [of ?fs1 ?es1, OF d1 dist1 sub1 rest(2,3) cl seg1 rest(4)])
    have step: "removeExpired fs dir cutT (f # files) = removeExpired ?fs1 dir cutT files"
      using rm mt(1) True by (simp del: Join.simps)
    show ?thesis by (simp only: step ih flt fun_upd_upd)
  qed
qed

lemma enforceMax_exact:
  assumes "fs dir = Dir es" "distinct (map Name es)" "set files \<subseteq> set es" "distinct files"
    "\<forall>f\<in>set files. removable f" "k \<le> length files"
    and cl: "Clean dir = dir" and seg: "\<forall>e\<in>set es. isArchive e \<longrightarrow> segment (Name e)"
    and arch: "\<forall>f\<in>set files. isArchive f"
  shows "enforceMax fs dir files k
           = (Success, fs(dir := Dir (filter (\<lambda>e. e \<notin> set (take k files)) es)))"
  using assms
proof (induction files arbitrary: fs es k)
  case Nil
  then show ?case by (simp add: fun_upd_idem)
next
  case (Cons f files)
  show ?case
  proof (cases k)
    case 0
    with Cons.prems(1) show ?thesis by (simp add: fun_upd_idem)
  next
    case (Suc j)
    have fin: "f \<in> set es" "f \<notin> set files" "removable f" using Cons.prems(3,4,5) by auto
    have rest: "set files \<subseteq> set es" "distinct files" "\<forall>f\<in>set files. removable f" "j \<le> length files"
      "\<forall>f\<in>set files. isArchive f"
      using Cons.prems(3,4,5,6,9) Suc by auto
    have sf: "segment (Name f)" using Cons.prems(8,9) fin(1) by auto
    let ?es1 = "filter (\<lambda>e. e \<noteq> f) es"
    let ?fs1 = "fs(dir := Dir ?es1)"
    have rm: "Remove fs (Join [dir, Name f]) = (None, ?fs1)"
      by (rule Remove_present [of fs dir es f, OF Cons.prems(1,2) fin(1,3) cl sf])
    have seg1: "\<forall>e\<in>set ?es1. isArchive e \<longrightarrow> segment (Name e)" using Cons.prems(8) by simp
    have d1: "?fs1 dir = Dir ?es1" by simp
    have dist1: "distinct (map Name ?es1)" using Cons.prems(2) by (rule distinct_map_filter)
    have sub1: "set files \<subseteq> set ?es1" using rest(1) fin(2) by auto
    have flt: "filter (\<lambda>e. e \<notin> set (take j files)) ?es1
            = filter (\<lambda>e. e \<notin> set (take (Suc j) (f # files))) es"
      unfolding filter_filter by (intro filter_cong) auto
    have ih: "enforceMax ?fs1 dir files j
        = (Success, ?fs1(dir := Dir (filter (\<lambda>e. e \<notin> set (take j files)) ?es1)))"
      by (rule Cons.IH [of ?fs1 ?es1 j, OF d1 dist1 sub1 rest(2,3,4) cl seg1 rest(5)])
    have step: "enforceMax fs dir (f # files) (Suc j) = enforceMax ?fs1 dir files j"
      using rm by (simp del: Join.simps)
    show ?thesis unfolding Suc by (simp only: step ih flt fun_upd_upd)
  qed
qed

lemma int64_id: "- (2 ^ 63) \<le> x \<Longrightarrow> x < 2 ^ 63 \<Longrightarrow> int64 x = x"
  by (simp add: int64_def)

lemma cutoff_days:
  assumes "- 106751 \<le> days" "days \<le> 106751"
  shows "cutoff now days = now - days * (24 * Hour)"
proof -
  have a: "int64 (- days) = - days" using assms by (intro int64_id) auto
  have b: "int64 (- days * 24) = - days * 24" using assms by (intro int64_id) auto
  have c: "int64 (- days * 24 * Hour) = - days * 24 * Hour"
    using assms unfolding Hour_def by (intro int64_id) auto
  show ?thesis unfolding cutoff_def a b c by simp
qed

lemma archiveFiles_sorted_input:
  "archiveFiles (sort_key Name es) = sort_key Name (filter isArchive es)"
proof -
  have "sort_key Name (sort_key Name (filter isArchive es)) = sort_key Name (filter isArchive es)"
    by (rule sort_key_id_if_sorted) (rule sorted_sort_key)
  then show ?thesis by (simp add: archiveFiles_def filter_sort)
qed

lemma distinct_entries: "distinct (map Name es) \<Longrightarrow> distinct es"
  by (rule distinct_map [THEN iffD1, THEN conjunct1])

lemma sorted_names_unique:
  assumes "distinct (map Name es)" "set xs \<subseteq> set es" "set ys \<subseteq> set es"
    "sorted (map Name xs)" "distinct xs" "sorted (map Name ys)" "distinct ys" "set xs = set ys"
  shows "xs = ys"
proof -
  have inj: "inj_on Name (set es)" using assms(1) by (simp add: distinct_map)
  have ix: "inj_on Name (set xs \<union> set ys)" using inj assms(2,3) by (auto intro: inj_on_subset)
  have dx: "distinct (map Name xs)" using ix assms(5) by (auto simp: distinct_map intro: inj_on_subset)
  have dy: "distinct (map Name ys)" using ix assms(7) by (auto simp: distinct_map intro: inj_on_subset)
  show ?thesis
    by (rule map_sorted_distinct_set_unique [OF ix assms(4) dx assms(6) dy assms(8)])
qed

lemma CleanupArchives_exact:
  assumes dir: "fs (resolveStoragePath storagePath) = Dir es"
    and dist: "distinct (map Name es)"
    and len: "int (length es) < 2 ^ 63"
    and ok: "\<forall>e\<in>set es. isArchive e \<longrightarrow> (\<exists>modTime. Info e = Some modTime) \<and> removable e"
    and days: "- 106751 \<le> days" "days \<le> 106751"
    and maxA: "0 \<le> maxA"
    and cl: "Clean (resolveStoragePath storagePath) = resolveStoragePath storagePath"
    and nosep: "\<forall>e\<in>set es. CHR ''/'' \<notin> set (Name e)"
  shows "CleanupArchives now fs storagePath (Some days) (Some maxA)
           = (Success, fs(resolveStoragePath storagePath :=
                Dir (filter (\<lambda>e. \<not> isArchive e \<or> e \<in> set (retained now days maxA es)) es)))"
proof -
  define p where "p = resolveStoragePath storagePath"
  define young where "young = sort_key Name (filter (\<lambda>e. isArchive e \<and> notOlder now days e) es)"
  define k where "k = length young - nat maxA"
  define es1 where "es1 = filter (\<lambda>e. \<not> isArchive e \<or> notOlder now days e) es"
  have d: "fs p = Dir es" using dir by (simp add: p_def)
  have cp: "Clean p = p" using cl by (simp add: p_def)
  have seg: "\<forall>e\<in>set es. isArchive e \<longrightarrow> segment (Name e)"
    using nosep by (auto intro: isArchive_segment)
  have rd: "ReadDir fs p = Inr (sort_key Name es)" by (simp add: ReadDir_def d)
  have ret: "retained now days maxA es = drop k young"
    by (simp add: retained_def young_def k_def Let_def)
  \<comment> \<open>the age phase\<close>
  let ?files = "archiveFiles (sort_key Name es)"
  have files: "?files = sort_key Name (filter isArchive es)" by (rule archiveFiles_sorted_input)
  have fset: "set ?files = {e \<in> set es. isArchive e}" by (auto simp: files)
  have fd: "distinct ?files" using distinct_entries [OF dist] by (simp add: files)
  have fok: "\<forall>f\<in>set ?files. \<exists>modTime. Info f = Some modTime \<and> removable f"
    using ok fset by auto
  have age: "removeExpired fs p (cutoff now days) ?files
      = (None, fs(p := Dir (filter (\<lambda>e. \<not> (e \<in> set ?files \<and> the (Info e) < cutoff now days)) es)))"
    using fset by (intro removeExpired_exact [of fs p es, OF d dist _ fd fok cp seg]) auto
  have "filter (\<lambda>e. \<not> (e \<in> set ?files \<and> the (Info e) < cutoff now days)) es = es1"
    unfolding es1_def
  proof (rule filter_cong [OF refl])
    fix e assume e: "e \<in> set es"
    show "(\<not> (e \<in> set ?files \<and> the (Info e) < cutoff now days))
            = (\<not> isArchive e \<or> notOlder now days e)"
    proof (cases "isArchive e")
      case False
      then show ?thesis using fset by simp
    next
      case True
      with ok e obtain modTime where "Info e = Some modTime" by auto
      with True e show ?thesis
        by (auto simp: fset notOlder_def cutoff_days [OF days])
    qed
  qed
  with age have age': "removeExpired fs p (cutoff now days) ?files = (None, fs(p := Dir es1))"
    by simp
  \<comment> \<open>the count phase\<close>
  let ?fs1 = "fs(p := Dir es1)"
  have d1: "?fs1 p = Dir es1" by simp
  have rd1: "ReadDir ?fs1 p = Inr (sort_key Name es1)" by (simp add: ReadDir_def)
  have "filter isArchive es1 = filter (\<lambda>e. isArchive e \<and> notOlder now days e) es"
    unfolding es1_def filter_filter by (intro filter_cong) auto
  then have files2: "archiveFiles (sort_key Name es1) = young"
    by (simp add: archiveFiles_sorted_input young_def)
  have yset: "set young = {e \<in> set es. isArchive e \<and> notOlder now days e}"
    by (auto simp: young_def)
  have ysub: "set young \<subseteq> set es1" by (auto simp: yset es1_def)
  have yd: "distinct young" using distinct_entries [OF dist] by (simp add: young_def)
  have yok: "\<forall>f\<in>set young. removable f" using ok yset by auto
  have dist1: "distinct (map Name es1)" unfolding es1_def using dist by (rule distinct_map_filter)
  have seg1: "\<forall>e\<in>set es1. isArchive e \<longrightarrow> segment (Name e)" using seg by (simp add: es1_def)
  have yarch: "\<forall>f\<in>set young. isArchive f" by (simp add: yset)
  have ylen: "length young \<le> length es"
    unfolding young_def by (simp add: le_trans [OF length_filter_le])
  have final: "filter (\<lambda>e. e \<notin> set (take k young)) es1
                 = filter (\<lambda>e. \<not> isArchive e \<or> e \<in> set (drop k young)) es"
    unfolding es1_def filter_filter
  proof (rule filter_cong [OF refl])
    fix e assume e: "e \<in> set es"
    have split: "set young = set (take k young) \<union> set (drop k young)"
      by (metis append_take_drop_id set_append)
    have disj: "set (take k young) \<inter> set (drop k young) = {}"
      using yd by (metis append_take_drop_id distinct_append)
    show "((\<not> isArchive e \<or> notOlder now days e) \<and> e \<notin> set (take k young))
            = (\<not> isArchive e \<or> e \<in> set (drop k young))"
    proof (cases "isArchive e")
      case False
      then have "e \<notin> set young" by (simp add: yset)
      with False split show ?thesis by auto
    next
      case True
      then have "notOlder now days e \<longleftrightarrow> e \<in> set young" using e by (simp add: yset)
      with True split disj show ?thesis by auto
    qed
  qed
  have count: "(if int (length young) > maxA
                then enforceMax ?fs1 p young (nat (int64 (int (length young) - maxA)))
                else (Success, ?fs1))
               = (Success, fs(p := Dir (filter (\<lambda>e. \<not> isArchive e \<or> e \<in> set (drop k young)) es)))"
  proof (cases "int (length young) > maxA")
    case True
    have "int64 (int (length young) - maxA) = int (length young) - maxA"
      using True maxA ylen len by (intro int64_id) auto
    then have kk: "nat (int64 (int (length young) - maxA)) = k"
      using maxA by (simp add: k_def nat_diff_distrib)
    have kle: "k \<le> length young" by (simp add: k_def)
    have "enforceMax ?fs1 p young k
            = (Success, ?fs1(p := Dir (filter (\<lambda>e. e \<notin> set (take k young)) es1)))"
      by (rule enforceMax_exact [of ?fs1 p es1 young k, OF d1 dist1 ysub yd yok kle cp seg1 yarch])
    with True kk show ?thesis by (simp only: final fun_upd_upd if_True)
  next
    case False
    then have "k = 0" using maxA by (simp add: k_def)
    then have "filter (\<lambda>e. \<not> isArchive e \<or> e \<in> set (drop k young)) es = es1"
      unfolding es1_def by (intro filter_cong) (auto simp: yset)
    with False show ?thesis by simp
  qed
  show ?thesis
    unfolding CleanupArchives_def Let_def p_def [symmetric] rd ret
    by (simp only: sum.case option.case age' prod.case rd1 files2 count)
qed

lemma retained_properties:
  assumes dist: "distinct (map Name es)"
  shows "set (retained now days maxA es) \<subseteq> {e \<in> set es. isArchive e \<and> notOlder now days e}"
    and "sorted (map Name (retained now days maxA es))"
    and "distinct (retained now days maxA es)"
    and "length (retained now days maxA es) \<le> nat maxA"
proof -
  define young where "young = sort_key Name (filter (\<lambda>e. isArchive e \<and> notOlder now days e) es)"
  have ret: "retained now days maxA es = drop (length young - nat maxA) young"
    by (simp add: retained_def young_def Let_def)
  have "set young = {e \<in> set es. isArchive e \<and> notOlder now days e}" by (auto simp: young_def)
  then show "set (retained now days maxA es) \<subseteq> {e \<in> set es. isArchive e \<and> notOlder now days e}"
    unfolding ret using set_drop_subset [of "length young - nat maxA" young] by simp
  have "sorted (map Name young)" unfolding young_def by (rule sorted_sort_key)
  then have "sorted (drop (length young - nat maxA) (map Name young))"
    by (rule sorted_wrt_drop)
  then show "sorted (map Name (retained now days maxA es))"
    by (simp add: ret drop_map)
  have "distinct young" using distinct_entries [OF dist] by (simp add: young_def)
  then show "distinct (retained now days maxA es)" unfolding ret by simp
  show "length (retained now days maxA es) \<le> nat maxA" unfolding ret by simp
qed

lemma retained_again:
  assumes dist: "distinct (map Name es)"
    and later: "\<forall>e\<in>set (retained now days maxA es). notOlder now' days e"
  shows "retained now' days maxA
           (filter (\<lambda>e. \<not> isArchive e \<or> e \<in> set (retained now days maxA es)) es)
         = retained now days maxA es"
proof -
  define kept where "kept = retained now days maxA es"
  note props = retained_properties [OF dist, of now days maxA, folded kept_def]
  let ?es' = "filter (\<lambda>e. \<not> isArchive e \<or> e \<in> set kept) es"
  have "filter (\<lambda>e. isArchive e \<and> notOlder now' days e) ?es' = filter (\<lambda>e. e \<in> set kept) es"
    unfolding filter_filter using props(1) later by (intro filter_cong) (auto simp: kept_def)
  then have young': "sort_key Name (filter (\<lambda>e. isArchive e \<and> notOlder now' days e) ?es')
                       = sort_key Name (filter (\<lambda>e. e \<in> set kept) es)"
    by simp
  have "sort_key Name (filter (\<lambda>e. e \<in> set kept) es) = kept"
  proof (rule sorted_names_unique [OF dist])
    show "set (sort_key Name (filter (\<lambda>e. e \<in> set kept) es)) \<subseteq> set es" by auto
    show "set kept \<subseteq> set es" using props(1) by auto
    show "sorted (map Name (sort_key Name (filter (\<lambda>e. e \<in> set kept) es)))"
      by (rule sorted_sort_key)
    show "distinct (sort_key Name (filter (\<lambda>e. e \<in> set kept) es))"
      using distinct_entries [OF dist] by simp
    show "sorted (map Name kept)" by (rule props(2))
    show "distinct kept" by (rule props(3))
    show "set (sort_key Name (filter (\<lambda>e. e \<in> set kept) es)) = set kept"
      using props(1) by auto
  qed
  with young' have "retained now' days maxA ?es' = drop (length kept - nat maxA) kept"
    by (simp add: retained_def Let_def)
  also have "\<dots> = kept" using props(4) by simp
  finally show ?thesis unfolding kept_def .
qed

text \<open>
  Claim C2, amended. The destination is a directory of fewer than \<open>2^63\<close> entries whose
  archives have a modification time and can be removed; its resolved path is in cleaned
  form and the names of its entries have no separator in them, so that the paths the code
  removes are paths of entries of the directory it lists; the age threshold is between
  \<open>-106751\<close> and \<open>106751\<close> days and the count ceiling is not negative. Then
  \<open>CleanupArchives\<close> succeeds and leaves, of the archives, exactly those whose modification
  time is not before \<open>now - days\<close>, reduced to the \<open>maxA\<close> largest names; every other entry
  stays. A second run with the same policy, at any time \<open>now'\<close> at which the archives left
  are still not older than the threshold, succeeds and removes nothing.
\<close>

theorem CleanupArchives_retention:
  assumes dir: "fs (resolveStoragePath storagePath) = Dir es"
    and dist: "distinct (map Name es)"
    and len: "int (length es) < 2 ^ 63"
    and ok: "\<forall>e\<in>set es. isArchive e \<longrightarrow> (\<exists>modTime. Info e = Some modTime) \<and> removable e"
    and days: "- 106751 \<le> days" "days \<le> 106751"
    and maxA: "0 \<le> maxA"
    and cl: "Clean (resolveStoragePath storagePath) = resolveStoragePath storagePath"
    and nosep: "\<forall>e\<in>set es. CHR ''/'' \<notin> set (Name e)"
    and later: "\<forall>e\<in>set (retained now days maxA es). notOlder now' days e"
    and fs': "fs' = fs(resolveStoragePath storagePath :=
                Dir (filter (\<lambda>e. \<not> isArchive e \<or> e \<in> set (retained now days maxA es)) es))"
  shows "CleanupArchives now fs storagePath (Some days) (Some maxA) = (Success, fs')
         \<and> CleanupArchives now' fs' storagePath (Some days) (Some maxA) = (Success, fs')"
proof
  show "CleanupArchives now fs storagePath (Some days) (Some maxA) = (Success, fs')"
    unfolding fs'
    by (rule CleanupArchives_exact [of fs storagePath es days maxA now,
          OF dir dist len ok days maxA cl nosep])
  let ?es' = "filter (\<lambda>e. \<not> isArchive e \<or> e \<in> set (retained now days maxA es)) es"
  have d': "fs' (resolveStoragePath storagePath) = Dir ?es'" by (simp add: fs')
  have dist': "distinct (map Name ?es')" using dist by (rule distinct_map_filter)
  have len': "int (length ?es') < 2 ^ 63"
    using len length_filter_le [of _ es] by (smt (verit) of_nat_le_iff)
  have ok': "\<forall>e\<in>set ?es'. isArchive e \<longrightarrow> (\<exists>modTime. Info e = Some modTime) \<and> removable e"
    using ok by auto
  have nosep': "\<forall>e\<in>set ?es'. CHR ''/'' \<notin> set (Name e)" using nosep by simp
  have "filter (\<lambda>e. \<not> isArchive e \<or> e \<in> set (retained now days maxA es)) ?es' = ?es'"
    by (simp add: filter_id_conv)
  then have "fs'(resolveStoragePath storagePath :=
                Dir (filter (\<lambda>e. \<not> isArchive e \<or> e \<in> set (retained now' days maxA ?es')) ?es')) = fs'"
    unfolding retained_again [OF dist later] using d' by (simp add: fun_upd_idem)
  with CleanupArchives_exact [of fs' storagePath ?es' days maxA now',
      OF d' dist' len' ok' days maxA cl nosep']
  show "CleanupArchives now' fs' storagePath (Some days) (Some maxA) = (Success, fs')"
    by simp
qed

text \<open>
  The concrete case of the claim and of the test: archives aged 48, 2, 1 and 0 hours,
  one day and at most two archives; the archives aged 1 and 0 hours are left, and a
  second run leaves them.
\<close>

lemma retained_testArchives:
  "retained testNow 1 2 testArchives
     = [createArchiveFile ''cluster-backup-20250102-010000.tar.gz'' Hour,
        createArchiveFile ''cluster-backup-20250103-010000.tar.gz'' 0]"
  by code_simp

theorem CleanupArchives_retention_witness:
  "CleanupArchives testNow (testDir testArchives) ''/var/backups'' (Some 1) (Some 2)
     = (Success, (testDir testArchives)(''/var/backups'' :=
          Dir [createArchiveFile ''cluster-backup-20250102-010000.tar.gz'' Hour,
               createArchiveFile ''cluster-backup-20250103-010000.tar.gz'' 0]))
   \<and> CleanupArchives testNow
         ((testDir testArchives)(''/var/backups'' :=
            Dir [createArchiveFile ''cluster-backup-20250102-010000.tar.gz'' Hour,
                 createArchiveFile ''cluster-backup-20250103-010000.tar.gz'' 0]))
         ''/var/backups'' (Some 1) (Some 2)
     = (Success, (testDir testArchives)(''/var/backups'' :=
          Dir [createArchiveFile ''cluster-backup-20250102-010000.tar.gz'' Hour,
               createArchiveFile ''cluster-backup-20250103-010000.tar.gz'' 0]))"
proof -
  have p: "resolveStoragePath ''/var/backups'' = ''/var/backups''"
    by (simp add: resolveStoragePath_def HasPrefix_def)
  have h1: "testDir testArchives (resolveStoragePath ''/var/backups'') = Dir testArchives"
    by (simp add: p testDir_def)
  have h2: "distinct (map Name testArchives)"
    by (simp add: testArchives_def createArchiveFile_def)
  have h3: "int (length testArchives) < 2 ^ 63"
    by (simp add: testArchives_def)
  have h4: "\<forall>e\<in>set testArchives.
              isArchive e \<longrightarrow> (\<exists>modTime. Info e = Some modTime) \<and> removable e"
    by (simp add: testArchives_def createArchiveFile_def)
  have h5: "- 106751 \<le> (1::int)" "(1::int) \<le> 106751" "(0::int) \<le> 2" by simp_all
  have h8: "Clean (resolveStoragePath ''/var/backups'') = resolveStoragePath ''/var/backups''"
    by code_simp
  have h9: "\<forall>e\<in>set testArchives. CHR ''/'' \<notin> set (Name e)"
    by (simp add: testArchives_def createArchiveFile_def)
  have h6: "\<forall>e\<in>set (retained testNow 1 2 testArchives). notOlder testNow 1 e"
    by (simp add: retained_testArchives notOlder_def createArchiveFile_def Hour_def)
  have kept: "filter (\<lambda>e. \<not> isArchive e \<or> e \<in> set (retained testNow 1 2 testArchives))
                testArchives
              = [createArchiveFile ''cluster-backup-20250102-010000.tar.gz'' Hour,
                 createArchiveFile ''cluster-backup-20250103-010000.tar.gz'' 0]"
    by code_simp
  have h7: "(testDir testArchives)(''/var/backups'' :=
               Dir [createArchiveFile ''cluster-backup-20250102-010000.tar.gz'' Hour,
                    createArchiveFile ''cluster-backup-20250103-010000.tar.gz'' 0])
            = (testDir testArchives)(resolveStoragePath ''/var/backups'' :=
                 Dir (filter (\<lambda>e. \<not> isArchive e
                                   \<or> e \<in> set (retained testNow 1 2 testArchives)) testArchives))"
    by (simp only: p kept)
  show ?thesis
    by (rule CleanupArchives_retention
        [where fs = "testDir testArchives" and es = testArchives and now' = testNow,
          OF h1 h2 h3 h4 h5 h8 h9 h6 h7])
qed

text \<open>
  Claim C2 as stated fails in three ways. An archive modified exactly \<open>maxAgeDays\<close> ago
  is not newer than the threshold and is kept (the code removes what is strictly older).
  With \<open>maxAgeDays = 106752\<close> the 64-bit duration wraps around, the cut-off lies in the
  future and an archive written at this instant is removed. With \<open>maxCount = -1\<close> the
  count loop reads past the end of the list and the run panics.
\<close>

theorem CleanupArchives_retention_counterexample:
  "snd (CleanupArchives testNow
          (testDir [createArchiveFile ''cluster-backup-20250102-010000.tar.gz'' (24 * Hour)])
          ''/var/backups'' (Some 1) (Some 2)) ''/var/backups''
     = Dir [createArchiveFile ''cluster-backup-20250102-010000.tar.gz'' (24 * Hour)]
   \<and> \<not> newerThan testNow 1
         (createArchiveFile ''cluster-backup-20250102-010000.tar.gz'' (24 * Hour))
   \<and> snd (CleanupArchives testNow
            (testDir [createArchiveFile ''cluster-backup-20250103-010000.tar.gz'' 0])
            ''/var/backups'' (Some 106752) (Some 2)) ''/var/backups''
       = Dir []
   \<and> newerThan testNow 106752 (createArchiveFile ''cluster-backup-20250103-010000.tar.gz'' 0)
   \<and> fst (CleanupArchives testNow
            (testDir [createArchiveFile ''cluster-backup-20250103-010000.tar.gz'' 0])
            ''/var/backups'' (Some 1) (Some (- 1)))
       = Panic"
  by code_simp

section \<open>Properties of restore\<close>

lemma applyResource_traced:
  "\<exists>evs. applyResource (traced bm) res (s, log)
            = (fst (applyResource bm res s), (snd (applyResource bm res s), log @ evs))
         \<and> evs \<noteq> []
         \<and> (\<forall>ev\<in>set evs. requestNamespace (fst ev) = res_namespace res)
         \<and> (refused (last evs) \<longleftrightarrow> fst (applyResource bm res s) \<noteq> None)"
proof -
  define ob where "ob = (if res_namespace res \<noteq> [] then SetNamespace (res_object res) (res_namespace res)
                else res_object res)"
  obtain r1 s1 where c: "clientCreate bm (res_gvr res) (res_namespace res) ob s = (r1, s1)"
    by (cases "clientCreate bm (res_gvr res) (res_namespace res) ob s")
  show ?thesis
  proof (cases r1)
    case (Inr created)
    show ?thesis
      by (rule exI [of _ "[(CreateReq (res_gvr res) (res_namespace res) ob, None)]"])
        (use c Inr in \<open>simp add: applyResource_def traced_def answer_def requestNamespace_def
            ob_def [symmetric]\<close>)
  next
    case (Inl err)
    show ?thesis
    proof (cases "err = AlreadyExists")
      case False
      show ?thesis
        by (rule exI [of _ "[(CreateReq (res_gvr res) (res_namespace res) ob, Some err)]"])
          (use c Inl False in \<open>simp add: applyResource_def traced_def answer_def
              requestNamespace_def ob_def [symmetric]\<close>)
    next
      case True
      obtain r2 s2 where g: "clientGet bm (res_gvr res) (res_namespace res) (GetName ob) s1 = (r2, s2)"
        by (cases "clientGet bm (res_gvr res) (res_namespace res) (GetName ob) s1")
      show ?thesis
      proof (cases r2)
        case (Inl getErr)
        show ?thesis
          by (rule exI [of _ "[(CreateReq (res_gvr res) (res_namespace res) ob, Some AlreadyExists),
                (GetReq (res_gvr res) (res_namespace res) (GetName ob), Some getErr)]"])
            (use c \<open>r1 = Inl err\<close> True g Inl in \<open>simp add: applyResource_def traced_def answer_def
                requestNamespace_def ob_def [symmetric]\<close>)
      next
        case (Inr existing)
        define ob' where "ob' = SetResourceVersion ob (GetResourceVersion existing)"
        obtain r3 s3 where u: "clientUpdate bm (res_gvr res) (res_namespace res) ob' s2 = (r3, s3)"
          by (cases "clientUpdate bm (res_gvr res) (res_namespace res) ob' s2")
        show ?thesis
          by (rule exI [of _ "[(CreateReq (res_gvr res) (res_namespace res) ob, Some AlreadyExists),
                (GetReq (res_gvr res) (res_namespace res) (GetName ob), None),
                (UpdateReq (res_gvr res) (res_namespace res) ob', answer r3)]"])
            (use c \<open>r1 = Inl err\<close> True g Inr u in \<open>cases r3; simp add: applyResource_def traced_def
                answer_def requestNamespace_def ob_def [symmetric] ob'_def [symmetric]\<close>)
      qed
    qed
  qed
qed

lemma applyList_traced:
  "\<exists>evs. applyList (traced bm) rs n (s, log)
            = (fst (applyList bm rs n s), (snd (applyList bm rs n s), log @ evs))
         \<and> (\<forall>ev\<in>set evs. requestNamespace (fst ev) \<in> res_namespace ` set rs)
         \<and> ((\<exists>err. fst (applyList bm rs n s) = Error err) \<longleftrightarrow> evs \<noteq> [] \<and> refused (last evs))
         \<and> fst (applyList bm rs n s) \<noteq> Panics"
proof (induction rs arbitrary: n s log)
  case Nil
  show ?case by (rule exI [of _ "[]"]) simp
next
  case (Cons res rs)
  from applyResource_traced [of bm res s log] obtain evs1 where
    e1: "applyResource (traced bm) res (s, log)
            = (fst (applyResource bm res s), (snd (applyResource bm res s), log @ evs1))"
      "evs1 \<noteq> []" "\<forall>ev\<in>set evs1. requestNamespace (fst ev) = res_namespace res"
      "refused (last evs1) \<longleftrightarrow> fst (applyResource bm res s) \<noteq> None"
    by blast
  obtain r s1 where a: "applyResource bm res s = (r, s1)" by (cases "applyResource bm res s")
  show ?case
  proof (cases r)
    case (Some err)
    show ?thesis
      by (rule exI [of _ evs1]) (use e1 a Some in simp)
  next
    case None
    from Cons.IH [of "n + 1" s1 "log @ evs1"] obtain evs2 where
      e2: "applyList (traced bm) rs (n + 1) (s1, log @ evs1)
            = (fst (applyList bm rs (n + 1) s1), (snd (applyList bm rs (n + 1) s1), (log @ evs1) @ evs2))"
        "\<forall>ev\<in>set evs2. requestNamespace (fst ev) \<in> res_namespace ` set rs"
        "(\<exists>err. fst (applyList bm rs (n + 1) s1) = Error err) \<longleftrightarrow> evs2 \<noteq> [] \<and> refused (last evs2)"
        "fst (applyList bm rs (n + 1) s1) \<noteq> Panics"
      by blast
    have step: "applyList bm (res # rs) n s = applyList bm rs (n + 1) s1"
      using a None by simp
    have stept: "applyList (traced bm) (res # rs) n (s, log)
                   = applyList (traced bm) rs (n + 1) (s1, log @ evs1)"
      using e1(1) a None by simp
    have l: "evs1 @ evs2 \<noteq> [] \<and> refused (last (evs1 @ evs2)) \<longleftrightarrow> evs2 \<noteq> [] \<and> refused (last evs2)"
      using e1(2,4) a None by (cases "evs2 = []") simp_all
    show ?thesis
      by (rule exI [of _ "evs1 @ evs2"])
        (use e1(3) e2 l in \<open>auto simp only: step stept append_assoc set_append list.set image_insert\<close>)
  qed
qed

lemma applyLists_traced:
  "\<exists>evs1 evs2. applyLists (traced bm) [cl, ns] n (s, log)
            = (fst (applyLists bm [cl, ns] n s), (snd (applyLists bm [cl, ns] n s), log @ evs1 @ evs2))
         \<and> (\<forall>ev\<in>set evs1. requestNamespace (fst ev) \<in> res_namespace ` set cl)
         \<and> (\<forall>ev\<in>set evs2. requestNamespace (fst ev) \<in> res_namespace ` set ns)
         \<and> ((\<exists>err. fst (applyLists bm [cl, ns] n s) = Error err)
              \<longleftrightarrow> evs1 @ evs2 \<noteq> [] \<and> refused (last (evs1 @ evs2)))
         \<and> fst (applyLists bm [cl, ns] n s) \<noteq> Panics"
proof -
  from applyList_traced [of bm cl n s log] obtain evs1 where
    e1: "applyList (traced bm) cl n (s, log)
            = (fst (applyList bm cl n s), (snd (applyList bm cl n s), log @ evs1))"
      "\<forall>ev\<in>set evs1. requestNamespace (fst ev) \<in> res_namespace ` set cl"
      "(\<exists>err. fst (applyList bm cl n s) = Error err) \<longleftrightarrow> evs1 \<noteq> [] \<and> refused (last evs1)"
      "fst (applyList bm cl n s) \<noteq> Panics"
    by blast
  obtain r s1 where a: "applyList bm cl n s = (r, s1)" by (cases "applyList bm cl n s")
  show ?thesis
  proof (cases r)
    case (Returned m)
    from applyList_traced [of bm ns m s1 "log @ evs1"] obtain evs2 where
      e2: "applyList (traced bm) ns m (s1, log @ evs1)
            = (fst (applyList bm ns m s1), (snd (applyList bm ns m s1), (log @ evs1) @ evs2))"
        "\<forall>ev\<in>set evs2. requestNamespace (fst ev) \<in> res_namespace ` set ns"
        "(\<exists>err. fst (applyList bm ns m s1) = Error err) \<longleftrightarrow> evs2 \<noteq> [] \<and> refused (last evs2)"
        "fst (applyList bm ns m s1) \<noteq> Panics"
      by blast
    obtain r2 s2 where a2: "applyList bm ns m s1 = (r2, s2)" by (cases "applyList bm ns m s1")
    have step: "applyLists bm [cl, ns] n s = (r2, s2)"
      using a Returned a2 by (cases r2) simp_all
    have stept: "applyLists (traced bm) [cl, ns] n (s, log) = (r2, (s2, log @ evs1 @ evs2))"
      using e1(1) a Returned e2(1) a2 by (cases r2) simp_all
    have l: "evs1 @ evs2 \<noteq> [] \<and> refused (last (evs1 @ evs2)) \<longleftrightarrow> evs2 \<noteq> [] \<and> refused (last evs2)"
      using e1(3) a Returned by (cases "evs2 = []") simp_all
    show ?thesis
      apply (rule exI [of _ evs1], rule exI [of _ evs2])
      using e1(2) e2(2,3,4) a2 l unfolding step stept by simp
  next
    case (Error err)
    have step: "applyLists bm [cl, ns] n s = (Error err, s1)"
      using a Error by simp
    have stept: "applyLists (traced bm) [cl, ns] n (s, log) = (Error err, (s1, log @ evs1 @ []))"
      using e1(1) a Error by simp
    show ?thesis
      apply (rule exI [of _ evs1], rule exI [of _ "[]"])
      using e1(2,3) a Error unfolding step stept by simp
  next
    case Panics
    with e1(4) a show ?thesis by simp
  qed
qed

lemma parseArchiveEntry_name:
  "parseArchiveEntry path = Inr (gvr, namespace, name) \<Longrightarrow> name \<noteq> []"
  by (auto simp: parseArchiveEntry_def Let_def split: if_splits list.splits option.splits)

lemma ensureMetadata_nil: "ensureMetadata None name namespace = Panics"
  by (simp add: ensureMetadata_def)

lemma ensureMetadata_named:
  assumes "name \<noteq> []"
  shows "\<exists>ob'. ensureMetadata (Some ob) name namespace = Returned (Some ob')
               \<and> metadataOf ob' \<noteq> None \<and> GetName ob' \<noteq> []"
proof -
  define metaObj where "metaObj = (case metadataOf ob of Some m \<Rightarrow> m | None \<Rightarrow> [])"
  define name' where "name' = (case map_of metaObj ''name'' of
                        Some (JString existingName) \<Rightarrow>
                          if existingName \<noteq> [] then existingName else name
                      | _ \<Rightarrow> name)"
  define metaObj' where "metaObj' = (let m = AList.update ''name'' (JString name') metaObj
     in if namespace \<noteq> [] then AList.update ''namespace'' (JString namespace) m else m)"
  have n: "name' \<noteq> []"
    using assms by (auto simp: name'_def split: option.splits json.splits)
  have e: "ensureMetadata (Some ob) name namespace
             = Returned (Some (AList.update ''metadata'' (JObject metaObj') ob))"
    using n by (simp add: ensureMetadata_def Let_def metaObj_def name'_def metaObj'_def)
  have m: "metadataOf (AList.update ''metadata'' (JObject metaObj') ob) = Some metaObj'"
    by (simp add: metadataOf_def update_conv')
  have "map_of metaObj' ''name'' = Some (JString name')"
    by (simp add: metaObj'_def Let_def update_conv')
  then have "GetName (AList.update ''metadata'' (JObject metaObj') ob) = name'"
    by (simp add: GetName_def NestedString_def m)
  with e m n show ?thesis by simp
qed

lemma readEntry_Error: "(\<exists>err. readEntry item = Error err) \<longleftrightarrow> rejectedEntry item"
proof (cases item)
  case Broken
  then show ?thesis by (simp add: readEntry_def)
next
  case (Entry regular hname content)
  show ?thesis
  proof (cases "regular \<and> HasSuffix hname ''.json''")
    case False
    then show ?thesis using Entry by (auto simp: readEntry_def)
  next
    case True
    show ?thesis
    proof (cases "parseArchiveEntry hname")
      case (Inl err)
      then show ?thesis using Entry True by (simp add: readEntry_def)
    next
      case (Inr parsed)
      obtain gvr namespace name where p: "parsed = (gvr, namespace, name)" by (cases parsed)
      have n: "name \<noteq> []" using Inr p by (auto dest: parseArchiveEntry_name)
      show ?thesis
      proof (cases content)
        case (Decoded decoded)
        show ?thesis
        proof (cases decoded)
          case None
          then show ?thesis
            using Entry True Inr p Decoded by (simp add: readEntry_def ensureMetadata_nil)
        next
          case (Some ob)
          from ensureMetadata_named [OF n, of ob namespace] obtain ob' where
            "ensureMetadata (Some ob) name namespace = Returned (Some ob')" by blast
          then show ?thesis
            using Entry True Inr p Decoded Some by (simp add: readEntry_def)
        qed
      qed (use Entry True Inr p in \<open>simp_all add: readEntry_def\<close>)
    qed
  qed
qed

lemma readEntry_Panics: "readEntry item = Panics \<longleftrightarrow> nullBody item"
proof (cases item)
  case Broken
  then show ?thesis by (simp add: readEntry_def)
next
  case (Entry regular hname content)
  show ?thesis
  proof (cases "regular \<and> HasSuffix hname ''.json''")
    case False
    then show ?thesis using Entry by (auto simp: readEntry_def)
  next
    case True
    show ?thesis
    proof (cases "parseArchiveEntry hname")
      case (Inl err)
      then show ?thesis using Entry True by (simp add: readEntry_def)
    next
      case (Inr parsed)
      obtain gvr namespace name where p: "parsed = (gvr, namespace, name)" by (cases parsed)
      have n: "name \<noteq> []" using Inr p by (auto dest: parseArchiveEntry_name)
      show ?thesis
      proof (cases content)
        case (Decoded decoded)
        show ?thesis
        proof (cases decoded)
          case None
          then show ?thesis
            using Entry True Inr p Decoded by (simp add: readEntry_def ensureMetadata_nil)
        next
          case (Some ob)
          from ensureMetadata_named [OF n, of ob namespace] obtain ob' where
            "ensureMetadata (Some ob) name namespace = Returned (Some ob')" by blast
          then show ?thesis
            using Entry True Inr p Decoded Some by (simp add: readEntry_def)
        qed
      qed (use Entry True Inr p in \<open>simp_all add: readEntry_def\<close>)
    qed
  qed
qed

lemma readEntry_resource:
  assumes "readEntry item = Returned (Some res)"
  shows "metadataOf (res_object res) \<noteq> None \<and> GetName (res_object res) \<noteq> [] \<and> isJSONEntry item"
proof (cases item)
  case Broken
  with assms show ?thesis by (simp add: readEntry_def)
next
  case (Entry regular hname content)
  have t: "regular \<and> HasSuffix hname ''.json''"
    using assms Entry by (auto simp: readEntry_def split: if_splits)
  show ?thesis
  proof (cases "parseArchiveEntry hname")
    case (Inl err)
    then show ?thesis using assms Entry t by (simp add: readEntry_def)
  next
    case (Inr parsed)
    obtain gvr namespace name where p: "parsed = (gvr, namespace, name)" by (cases parsed)
    have n: "name \<noteq> []" using Inr p by (auto dest: parseArchiveEntry_name)
    show ?thesis
    proof (cases content)
      case (Decoded decoded)
      show ?thesis
      proof (cases decoded)
        case None
        then show ?thesis
          using assms Entry t Inr p Decoded by (simp add: readEntry_def ensureMetadata_nil)
      next
        case (Some ob)
        from ensureMetadata_named [OF n, of ob namespace] obtain ob' where
          "ensureMetadata (Some ob) name namespace = Returned (Some ob')"
          "metadataOf ob' \<noteq> None" "GetName ob' \<noteq> []" by blast
        then show ?thesis
          using assms Entry t Inr p Decoded Some by (auto simp: readEntry_def)
      qed
    qed (use assms Entry t Inr p in \<open>simp_all add: readEntry_def\<close>)
  qed
qed

lemma readEntry_skipped: "readEntry item = Returned None \<Longrightarrow> \<not> isJSONEntry item"
  by (cases item)
    (auto simp: readEntry_def split: if_splits sum.splits body.splits outcome.splits option.splits)

lemma readEntries_Error_iff:
  assumes "\<forall>item\<in>set items. \<not> nullBody item"
  shows "((\<exists>err. readEntries items cl ns = Error err) \<longleftrightarrow> (\<exists>item\<in>set items. rejectedEntry item))
         \<and> readEntries items cl ns \<noteq> Panics"
  using assms
proof (induction items arbitrary: cl ns)
  case Nil
  then show ?case by simp
next
  case (Cons item items)
  have np: "readEntry item \<noteq> Panics" using Cons.prems by (simp add: readEntry_Panics)
  have ih: "((\<exists>err. readEntries items cl' ns' = Error err) \<longleftrightarrow> (\<exists>item\<in>set items. rejectedEntry item))
         \<and> readEntries items cl' ns' \<noteq> Panics" for cl' ns'
    using Cons.IH [of cl' ns'] Cons.prems by simp
  show ?case
  proof (cases "readEntry item")
    case (Error err)
    then have "rejectedEntry item" using readEntry_Error [of item] by blast
    with Error show ?thesis by simp
  next
    case Panics
    with np show ?thesis by simp
  next
    case (Returned x)
    then have nr: "\<not> rejectedEntry item" using readEntry_Error [of item] by auto
    show ?thesis
    proof (cases x)
      case None
      with Returned nr ih [of cl ns] show ?thesis by simp
    next
      case (Some res)
      with Returned nr ih [of "cl @ [res]" ns] ih [of cl "ns @ [res]"] show ?thesis by simp
    qed
  qed
qed

lemma readEntries_Returned:
  assumes "readEntries items cl ns = Returned (cl', ns')"
  shows "\<exists>cl2 ns2. cl' = cl @ cl2 \<and> ns' = ns @ ns2
           \<and> (\<forall>res\<in>set cl2. res_namespace res = [] \<and> metadataOf (res_object res) \<noteq> None)
           \<and> (\<forall>res\<in>set ns2. res_namespace res \<noteq> [] \<and> metadataOf (res_object res) \<noteq> None)
           \<and> length cl2 + length ns2 = length (filter isJSONEntry items)"
  using assms
proof (induction items arbitrary: cl ns)
  case Nil
  then show ?case by simp
next
  case (Cons item items)
  show ?case
  proof (cases "readEntry item")
    case (Error err)
    with Cons.prems show ?thesis by simp
  next
    case Panics
    with Cons.prems show ?thesis by simp
  next
    case (Returned x)
    show ?thesis
    proof (cases x)
      case None
      with Returned Cons.prems have "readEntries items cl ns = Returned (cl', ns')" by simp
      from Cons.IH [OF this] readEntry_skipped [of item] Returned None show ?thesis by simp
    next
      case (Some res)
      note props = readEntry_resource [of item res]
      show ?thesis
      proof (cases "res_namespace res = []")
        case True
        with Returned Some Cons.prems have "readEntries items (cl @ [res]) ns = Returned (cl', ns')"
          by simp
        from Cons.IH [OF this] obtain cl2 ns2 where
          x: "cl' = (cl @ [res]) @ cl2" "ns' = ns @ ns2"
             "\<forall>res\<in>set cl2. res_namespace res = [] \<and> metadataOf (res_object res) \<noteq> None"
             "\<forall>res\<in>set ns2. res_namespace res \<noteq> [] \<and> metadataOf (res_object res) \<noteq> None"
             "length cl2 + length ns2 = length (filter isJSONEntry items)"
          by blast
        show ?thesis
          apply (rule exI [of _ "res # cl2"], rule exI [of _ ns2])
          using x props Returned Some True by simp
      next
        case False
        with Returned Some Cons.prems have "readEntries items cl (ns @ [res]) = Returned (cl', ns')"
          by simp
        from Cons.IH [OF this] obtain cl2 ns2 where
          x: "cl' = cl @ cl2" "ns' = (ns @ [res]) @ ns2"
             "\<forall>res\<in>set cl2. res_namespace res = [] \<and> metadataOf (res_object res) \<noteq> None"
             "\<forall>res\<in>set ns2. res_namespace res \<noteq> [] \<and> metadataOf (res_object res) \<noteq> None"
             "length cl2 + length ns2 = length (filter isJSONEntry items)"
          by blast
        show ?thesis
          apply (rule exI [of _ cl2], rule exI [of _ "res # ns2"])
          using x props Returned Some False by simp
      qed
    qed
  qed
qed

lemma readEntries_parts:
  assumes "readEntries items [] [] = Returned (cl, ns)"
  shows "(\<forall>res\<in>set cl. res_namespace res = [] \<and> metadataOf (res_object res) \<noteq> None)
       \<and> (\<forall>res\<in>set ns. res_namespace res \<noteq> [] \<and> metadataOf (res_object res) \<noteq> None)
       \<and> length cl + length ns = length (filter isJSONEntry items)"
  using readEntries_Returned [OF assms] by simp

lemma RestoreBackup_parse_stage:
  assumes "archiveName = [] \<or> archive = OpenFails \<or> archive = NotGzip
           \<or> (\<exists>item\<in>set (itemsOf archive). rejectedEntry item)"
    and "archive = dsk (Join [resolveStoragePath storagePath, archiveName])"
    and "\<forall>item\<in>set (itemsOf archive). \<not> nullBody item"
  shows "\<exists>err. RestoreBackup bm dsk storagePath archiveName s = (Error err, s)"
proof (cases "archiveName = []")
  case True
  then show ?thesis by (simp add: RestoreBackup_def)
next
  case False
  show ?thesis
  proof (cases archive)
    case OpenFails
    with False assms(2) show ?thesis by (simp add: RestoreBackup_def)
  next
    case NotGzip
    with False assms(2) show ?thesis by (simp add: RestoreBackup_def)
  next
    case (Tar items)
    with assms(1) False have "\<exists>item\<in>set items. rejectedEntry item" by (simp add: itemsOf_def)
    moreover have "\<forall>item\<in>set items. \<not> nullBody item" using assms(3) Tar by (simp add: itemsOf_def)
    ultimately obtain err where "readEntries items [] [] = Error err"
      using readEntries_Error_iff [of items "[]" "[]"] by blast
    with False Tar assms(2) show ?thesis by (simp add: RestoreBackup_def)
  qed
qed

text \<open>
  Claim C4, amended. For an archive none of whose JSON entries has the body \<open>null\<close>,
  \<open>RestoreBackup\<close> returns an error exactly when the archive name is empty, or the
  archive cannot be opened or decompressed, or some item of it is rejected (the archive
  cannot be read further, or a JSON entry has a path that cannot be parsed, data that
  cannot be read or a body that is not JSON), or the last request made was refused (a
  create answered with an error other than \<open>AlreadyExists\<close>, or the fetch or the update
  that follows \<open>AlreadyExists\<close> answered with an error). In the first four cases no
  request has been made and the system is as it was. It never panics on such an archive.
\<close>

theorem RestoreBackup_failures:
  assumes run: "RestoreBackup (traced bm) dsk storagePath archiveName (s, []) = (r, (s', log))"
    and arch: "archive = dsk (Join [resolveStoragePath storagePath, archiveName])"
    and nonull: "\<forall>item\<in>set (itemsOf archive). \<not> nullBody item"
  shows "((\<exists>err. r = Error err) \<longleftrightarrow>
            archiveName = [] \<or> archive = OpenFails \<or> archive = NotGzip
            \<or> (\<exists>item\<in>set (itemsOf archive). rejectedEntry item)
            \<or> (log \<noteq> [] \<and> refused (last log)))
         \<and> (archiveName = [] \<or> archive = OpenFails \<or> archive = NotGzip
             \<or> (\<exists>item\<in>set (itemsOf archive). rejectedEntry item)
               \<longrightarrow> log = [] \<and> s' = s)
         \<and> r \<noteq> Panics"
proof (cases "archiveName = [] \<or> archive = OpenFails \<or> archive = NotGzip
           \<or> (\<exists>item\<in>set (itemsOf archive). rejectedEntry item)")
  case True
  from RestoreBackup_parse_stage [of archiveName archive dsk storagePath "traced bm" "(s, [])",
      OF True arch nonull] run
  obtain err where "r = Error err" "s' = s" "log = []" by auto
  with True show ?thesis by auto
next
  case False
  then have an: "archiveName \<noteq> []" by simp
  from False obtain items where t: "archive = Tar items" by (cases archive) auto
  have nr: "\<not> (\<exists>item\<in>set items. rejectedEntry item)" using False t by (simp add: itemsOf_def)
  have nn: "\<forall>item\<in>set items. \<not> nullBody item" using nonull t by (simp add: itemsOf_def)
  from readEntries_Error_iff [OF nn, of "[]" "[]"] nr
  obtain cl ns where p: "readEntries items [] [] = Returned (cl, ns)"
    by (cases "readEntries items [] []") auto
  from applyLists_traced [of bm cl ns 0 s "[]"] obtain evs1 evs2 where
    e: "applyLists (traced bm) [cl, ns] 0 (s, [])
            = (fst (applyLists bm [cl, ns] 0 s), (snd (applyLists bm [cl, ns] 0 s), [] @ evs1 @ evs2))"
       "(\<exists>err. fst (applyLists bm [cl, ns] 0 s) = Error err)
              \<longleftrightarrow> evs1 @ evs2 \<noteq> [] \<and> refused (last (evs1 @ evs2))"
       "fst (applyLists bm [cl, ns] 0 s) \<noteq> Panics"
    by blast
  have "RestoreBackup (traced bm) dsk storagePath archiveName (s, [])
          = applyLists (traced bm) [cl, ns] 0 (s, [])"
    using an t arch p by (simp add: RestoreBackup_def)
  with run e(1) have "r = fst (applyLists bm [cl, ns] 0 s)" "log = evs1 @ evs2" by simp_all
  with e(2,3) False show ?thesis by simp
qed

theorem RestoreBackup_failures_witness:
  "RestoreBackup (traced apiServer)
     (testDisk [Entry True ''volumes/v1/persistentvolumes/data.json'' (Decoded (Some namespaceObject))])
     ''/var/backups'' ''cluster-backup-restore.tar.gz'' (emptyCluster, [])
     = (Error (ParseEntryFailed ''volumes/v1/persistentvolumes/data.json'' UnrecognisedPrefix),
        (emptyCluster, []))
   \<and> rejectedEntry
         (Entry True ''volumes/v1/persistentvolumes/data.json'' (Decoded (Some namespaceObject)))"
proof -
  let ?items = "[Entry True ''volumes/v1/persistentvolumes/data.json'' (Decoded (Some namespaceObject))]"
  have run: "RestoreBackup (traced apiServer) (testDisk ?items)
     ''/var/backups'' ''cluster-backup-restore.tar.gz'' (emptyCluster, [])
     = (Error (ParseEntryFailed ''volumes/v1/persistentvolumes/data.json'' UnrecognisedPrefix),
        (emptyCluster, []))"
    by code_simp
  have arch: "Tar ?items
      = testDisk ?items (Join [resolveStoragePath ''/var/backups'', ''cluster-backup-restore.tar.gz''])"
    by code_simp
  have rej: "rejectedEntry (Entry True ''volumes/v1/persistentvolumes/data.json'' (Decoded (Some namespaceObject)))"
    by code_simp
  have nonull: "\<forall>item\<in>set (itemsOf (Tar ?items)). \<not> nullBody item"
    using rej by (simp add: itemsOf_def)
  from RestoreBackup_failures [OF run arch nonull] run rej show ?thesis by simp
qed

text \<open>
  Claim C4 as stated fails: the archive opens, the path of its only entry is parsed to
  the namespace \<open>restore-ns\<close>, the name is there, no request is made, and the restore
  returns an error, because the body of the entry is not JSON.
\<close>

theorem RestoreBackup_invalid_body:
  "RestoreBackup (traced apiServer)
     (testDisk [Entry True ''cluster/v1/namespaces/restore-ns.json'' InvalidJSON])
     ''/var/backups'' ''cluster-backup-restore.tar.gz'' (emptyCluster, [])
     = (Error (UnmarshalFailed ''cluster/v1/namespaces/restore-ns.json''), (emptyCluster, []))
   \<and> testDisk [Entry True ''cluster/v1/namespaces/restore-ns.json'' InvalidJSON]
         (Join [resolveStoragePath ''/var/backups'', ''cluster-backup-restore.tar.gz''])
       = Tar [Entry True ''cluster/v1/namespaces/restore-ns.json'' InvalidJSON]
   \<and> parseArchiveEntry ''cluster/v1/namespaces/restore-ns.json''
       = Inr (namespacesGVR, [], ''restore-ns'')"
  by code_simp

section \<open>Restore on the reference server\<close>

lemma metadataOf_Some: "metadataOf ob = Some m \<longleftrightarrow> map_of ob ''metadata'' = Some (JObject m)"
  by (auto simp: metadataOf_def split: option.splits json.splits)

lemma setNestedField_metadata:
  assumes "metadataOf ob = Some m"
  shows "metadataOf (setNestedField ob field v) = Some (AList.update field (JString v) m)"
  using assms by (simp add: metadataOf_Some setNestedField_def update_conv')

lemma RemoveNestedField_metadata:
  assumes "metadataOf ob = Some m"
  shows "metadataOf (RemoveNestedField ob field) = Some (AList.delete field m)"
  using assms by (simp add: metadataOf_Some RemoveNestedField_def update_conv')

lemma NestedString_setNestedField:
  assumes "metadataOf ob \<noteq> None"
  shows "NestedString (setNestedField ob field v) field' = (if field' = field then v else NestedString ob field')"
proof -
  from assms obtain m where m: "metadataOf ob = Some m" by auto
  show ?thesis
    by (simp add: NestedString_def setNestedField_metadata [OF m] m update_conv')
qed

lemma NestedString_RemoveNestedField:
  assumes "metadataOf ob \<noteq> None"
  shows "NestedString (RemoveNestedField ob field) field' = (if field' = field then [] else NestedString ob field')"
proof -
  from assms obtain m where m: "metadataOf ob = Some m" by auto
  show ?thesis
    by (simp add: NestedString_def RemoveNestedField_metadata [OF m] m delete_conv')
qed

lemma SetNamespace_keeps:
  assumes "metadataOf ob \<noteq> None"
  shows "metadataOf (SetNamespace ob ns) \<noteq> None \<and> GetName (SetNamespace ob ns) = GetName ob"
proof -
  from assms obtain m where m: "metadataOf ob = Some m" by auto
  show ?thesis
    by (simp add: SetNamespace_def GetName_def NestedString_setNestedField [OF assms]
        NestedString_RemoveNestedField [OF assms] setNestedField_metadata [OF m]
        RemoveNestedField_metadata [OF m])
qed

lemma SetResourceVersion_keeps:
  assumes "metadataOf ob \<noteq> None"
  shows "GetName (SetResourceVersion ob rv) = GetName ob
       \<and> GetResourceVersion (SetResourceVersion ob rv) = rv"
  by (simp add: SetResourceVersion_def GetName_def GetResourceVersion_def
      NestedString_setNestedField [OF assms] NestedString_RemoveNestedField [OF assms])

lemma applied_keeps:
  assumes "metadataOf (res_object res) \<noteq> None"
  shows "metadataOf (applied res) \<noteq> None" "GetName (applied res) = GetName (res_object res)"
  using SetNamespace_keeps [OF assms] assms by (simp_all add: applied_def)

lemma stored_store:
  "store key ob c = (r, c') \<Longrightarrow> stored c' = insert key (stored c) \<and> (\<exists>ob'. r = Inr ob')"
  by (auto simp: store_def stored_def Let_def update_conv')

lemma keys_store:
  assumes "store key ob c = (r, c')" "key \<in> stored c"
  shows "map fst (objects c') = map fst (objects c)"
proof -
  have "key \<in> set (map fst (objects c))"
    using assms(2) by (simp add: stored_def dom_map_of_conv_image_fst)
  then have "map fst (AList.update key v (objects c)) = map fst (objects c)" for v
    by (simp only: update_keys if_True)
  then show ?thesis using assms(1) by (auto simp: store_def Let_def)
qed

lemma apply_without_namespace:
  assumes "res_namespace res \<noteq> []" "namespaceKey (res_namespace res) \<notin> stored c"
  shows "applyResource apiServer res c = (Some (CreateFailed NotFound), c)"
  using assms
  by (simp add: applyResource_def apiServer_def stored_def namespaceKey_def domIff)

lemma apply_new:
  assumes meta: "metadataOf (res_object res) \<noteq> None"
    and nsok: "res_namespace res = [] \<or> namespaceKey (res_namespace res) \<in> stored c"
    and new: "resourceKey res \<notin> stored c"
  shows "\<exists>c'. applyResource apiServer res c = (None, c')
            \<and> stored c' = insert (resourceKey res) (stored c)"
proof -
  have n: "GetName (applied res) = GetName (res_object res)" by (rule applied_keeps [OF meta])
  obtain r c' where st: "store (resourceKey res) (applied res) c = (r, c')"
    by (cases "store (resourceKey res) (applied res) c")
  from stored_store [OF st] obtain ob' where
    r: "r = Inr ob'" and s: "stored c' = insert (resourceKey res) (stored c)" by blast
  have cr: "clientCreate apiServer (res_gvr res) (res_namespace res) (applied res) c = (Inr ob', c')"
    using nsok new st r
    by (auto simp: apiServer_def stored_def namespaceKey_def resourceKey_def n domIff)
  have "applyResource apiServer res c = (None, c')"
    using cr by (simp add: applyResource_def applied_def [symmetric])
  with s show ?thesis by blast
qed

lemma revision_store: "store key ob c = (r, c') \<Longrightarrow> revision c' = Suc (revision c)"
  by (auto simp: store_def Let_def)

lemma apply_existing:
  assumes meta: "metadataOf (res_object res) \<noteq> None"
    and nsok: "res_namespace res = [] \<or> namespaceKey (res_namespace res) \<in> stored c"
    and old: "resourceKey res \<in> stored c"
  shows "\<exists>c' rv. applyResource (traced apiServer) res (c, log) = (None, (c', log @ inPlace res rv))
            \<and> map fst (objects c') = map fst (objects c)
            \<and> stored c' = stored c
            \<and> revision c' = Suc (revision c)"
proof -
  let ?g = "res_gvr res" and ?n = "res_namespace res" and ?ob = "applied res"
  have n: "GetName ?ob = GetName (res_object res)" by (rule applied_keeps [OF meta])
  have m: "metadataOf ?ob \<noteq> None" by (rule applied_keeps [OF meta])
  from old obtain existing where ex: "map_of (objects c) (?g, ?n, GetName ?ob) = Some existing"
    by (auto simp: stored_def resourceKey_def n)
  let ?ob' = "SetResourceVersion ?ob (GetResourceVersion existing)"
  have n': "GetName ?ob' = GetName ?ob" and rv: "GetResourceVersion ?ob' = GetResourceVersion existing"
    using SetResourceVersion_keeps [OF m] by simp_all
  obtain r c' where st: "store (resourceKey res) ?ob' c = (r, c')"
    by (cases "store (resourceKey res) ?ob' c")
  from stored_store [OF st] keys_store [OF st old] old obtain ob'' where
    r: "r = Inr ob''" and s: "stored c' = stored c" "map fst (objects c') = map fst (objects c)"
    by auto
  have cr: "clientCreate apiServer ?g ?n ?ob c = (Inl AlreadyExists, c)"
    using nsok ex by (auto simp: apiServer_def stored_def namespaceKey_def domIff)
  have gt: "clientGet apiServer ?g ?n (GetName ?ob) c = (Inr existing, c)"
    using ex by (simp add: apiServer_def)
  have up: "clientUpdate apiServer ?g ?n ?ob' c = (Inr ob'', c')"
    using ex st r by (simp add: apiServer_def n' rv resourceKey_def n)
  have "applyResource (traced apiServer) res (c, log)
          = (None, (c', log @ [(CreateReq ?g ?n ?ob, Some AlreadyExists),
                               (GetReq ?g ?n (GetName ?ob), None),
                               (UpdateReq ?g ?n ?ob', None)]))"
    using cr gt up
    by (simp add: applyResource_def applied_def [symmetric] traced_def answer_def Let_def)
  then have "applyResource (traced apiServer) res (c, log)
          = (None, (c', log @ inPlace res (GetResourceVersion existing)))"
    by (simp only: inPlace_def)
  with s revision_store [OF st] show ?thesis by blast
qed

lemma apply_any:
  assumes meta: "metadataOf (res_object res) \<noteq> None"
    and nsok: "res_namespace res = [] \<or> namespaceKey (res_namespace res) \<in> stored c"
  shows "\<exists>c'. applyResource apiServer res c = (None, c')
            \<and> stored c' = insert (resourceKey res) (stored c)"
proof (cases "resourceKey res \<in> stored c")
  case False
  then show ?thesis by (rule apply_new [OF meta nsok])
next
  case True
  from apply_existing [OF meta nsok True, of "[]"] obtain c' rv where
    t: "applyResource (traced apiServer) res (c, []) = (None, (c', [] @ inPlace res rv))"
      "stored c' = stored c"
    by blast
  from applyResource_traced [of apiServer res c "[]"] obtain evs' where
    "applyResource (traced apiServer) res (c, [])
       = (fst (applyResource apiServer res c), (snd (applyResource apiServer res c), [] @ evs'))"
    by blast
  with t(1) have "fst (applyResource apiServer res c) = None"
    "snd (applyResource apiServer res c) = c'" by simp_all
  then have "applyResource apiServer res c = (None, c')" by (metis prod.collapse)
  moreover have "stored c' = insert (resourceKey res) (stored c)"
    unfolding t(2) using True by (simp add: insert_absorb)
  ultimately show ?thesis by blast
qed

lemma applyList_ok:
  assumes "\<forall>res\<in>set rs. metadataOf (res_object res) \<noteq> None
             \<and> (res_namespace res = [] \<or> namespaceKey (res_namespace res) \<in> stored c)"
  shows "\<exists>c'. applyList apiServer rs a c = (Returned (a + length rs), c')
            \<and> stored c' = stored c \<union> resourceKey ` set rs"
  using assms
proof (induction rs arbitrary: a c)
  case Nil
  then show ?case by simp
next
  case (Cons res rs)
  from Cons.prems have meta: "metadataOf (res_object res) \<noteq> None"
    and nsok: "res_namespace res = [] \<or> namespaceKey (res_namespace res) \<in> stored c" by simp_all
  from apply_any [OF meta nsok] obtain c1 where
    c1: "applyResource apiServer res c = (None, c1)" "stored c1 = insert (resourceKey res) (stored c)"
    by blast
  have "\<forall>res\<in>set rs. metadataOf (res_object res) \<noteq> None
             \<and> (res_namespace res = [] \<or> namespaceKey (res_namespace res) \<in> stored c1)"
    using Cons.prems c1(2) by auto
  from Cons.IH [OF this, of "a + 1"] obtain c' where
    c': "applyList apiServer rs (a + 1) c1 = (Returned (a + 1 + length rs), c')"
    "stored c' = stored c1 \<union> resourceKey ` set rs" by blast
  have "applyList apiServer (res # rs) a c = (Returned (a + length (res # rs)), c')"
    using c1(1) c'(1) by simp
  moreover have "stored c' = stored c \<union> resourceKey ` set (res # rs)"
    unfolding c'(2) c1(2) by simp
  ultimately show ?case by blast
qed

lemma applyList_success:
  assumes "applyList apiServer rs a c = (Returned m, c')"
    and "\<forall>res\<in>set rs. metadataOf (res_object res) \<noteq> None"
  shows "m = a + length rs \<and> stored c \<subseteq> stored c'
       \<and> (\<forall>res\<in>set rs. resourceKey res \<in> stored c'
             \<and> (res_namespace res = [] \<or> namespaceKey (res_namespace res) \<in> stored c'))"
  using assms
proof (induction rs arbitrary: a c)
  case Nil
  then show ?case by simp
next
  case (Cons res rs)
  obtain r c1 where ap: "applyResource apiServer res c = (r, c1)"
    by (cases "applyResource apiServer res c")
  with Cons.prems have r: "r = None" and rest: "applyList apiServer rs (a + 1) c1 = (Returned m, c')"
    by (cases r; simp)+
  have nsok: "res_namespace res = [] \<or> namespaceKey (res_namespace res) \<in> stored c"
    using apply_without_namespace [of res c] ap r by auto
  have meta: "metadataOf (res_object res) \<noteq> None" using Cons.prems(2) by simp
  have grow: "stored c1 = insert (resourceKey res) (stored c)"
    using apply_any [OF meta nsok] ap by auto
  have "\<forall>res\<in>set rs. metadataOf (res_object res) \<noteq> None" using Cons.prems(2) by simp
  from Cons.IH [OF rest this] have ih: "m = a + 1 + length rs" "stored c1 \<subseteq> stored c'"
    "\<forall>res\<in>set rs. resourceKey res \<in> stored c'
             \<and> (res_namespace res = [] \<or> namespaceKey (res_namespace res) \<in> stored c')"
    by auto
  show ?case using ih grow nsok by auto
qed

lemma applyList_existing:
  assumes "\<forall>res\<in>set rs. metadataOf (res_object res) \<noteq> None
             \<and> (res_namespace res = [] \<or> namespaceKey (res_namespace res) \<in> stored c)
             \<and> resourceKey res \<in> stored c"
  shows "\<exists>c' rvs. length rvs = length rs
            \<and> applyList (traced apiServer) rs a (c, log)
                  = (Returned (a + length rs), (c', log @ concat (map2 inPlace rs rvs)))
            \<and> map fst (objects c') = map fst (objects c)
            \<and> stored c' = stored c
            \<and> revision c' = revision c + length rs"
  using assms
proof (induction rs arbitrary: a c log)
  case Nil
  show ?case by (rule exI [of _ c], rule exI [of _ "[]"]) simp
next
  case (Cons res rs)
  from Cons.prems have meta: "metadataOf (res_object res) \<noteq> None"
    and nsok: "res_namespace res = [] \<or> namespaceKey (res_namespace res) \<in> stored c"
    and old: "resourceKey res \<in> stored c" by simp_all
  from apply_existing [OF meta nsok old, of log] obtain c1 rv where
    c1: "applyResource (traced apiServer) res (c, log) = (None, (c1, log @ inPlace res rv))"
      "map fst (objects c1) = map fst (objects c)" "stored c1 = stored c"
      "revision c1 = Suc (revision c)"
    by blast
  have "\<forall>res\<in>set rs. metadataOf (res_object res) \<noteq> None
             \<and> (res_namespace res = [] \<or> namespaceKey (res_namespace res) \<in> stored c1)
             \<and> resourceKey res \<in> stored c1"
    using Cons.prems c1(3) by simp
  from Cons.IH [OF this, of "a + 1" "log @ inPlace res rv"] obtain c' rvs where
    c2: "length rvs = length rs"
      "applyList (traced apiServer) rs (a + 1) (c1, log @ inPlace res rv)
           = (Returned (a + 1 + length rs),
              (c', (log @ inPlace res rv) @ concat (map2 inPlace rs rvs)))"
      "map fst (objects c') = map fst (objects c1)" "stored c' = stored c1"
      "revision c' = revision c1 + length rs"
    by blast
  have run: "applyList (traced apiServer) (res # rs) a (c, log)
           = (Returned (a + length (res # rs)),
              (c', log @ concat (map2 inPlace (res # rs) (rv # rvs))))"
    using c1(1) c2(2) by simp
  have "length (rv # rvs) = length (res # rs)" using c2(1) by simp
  moreover have "map fst (objects c') = map fst (objects c)" using c1(2) c2(3) by simp
  moreover have "stored c' = stored c" using c1(3) c2(4) by simp
  moreover have "revision c' = revision c + length (res # rs)" using c1(4) c2(5) by simp
  ultimately show ?case using run by blast
qed

lemma applyLists_two:
  "applyLists bm [cl, ns] a s =
     (case applyList bm cl a s of
        (Returned m, s1) \<Rightarrow> applyList bm ns m s1
      | (failure, s1) \<Rightarrow> (failure, s1))"
proof -
  obtain r s1 where a: "applyList bm cl a s = (r, s1)" by (cases "applyList bm cl a s")
  show ?thesis
  proof (cases r)
    case (Returned m)
    obtain r2 s2 where b: "applyList bm ns m s1 = (r2, s2)" by (cases "applyList bm ns m s1")
    show ?thesis using a Returned b by (cases r2) simp_all
  qed (use a in simp_all)
qed

text \<open>
  Claim C5. On the reference server, when a restore of an archive has returned, a second
  restore of the same archive returns too, with the same count, which is the number of
  JSON entries of the archive. The requests of the second run are, for each resource of
  the archive in turn, cluster-scoped ones first, those of an update in place: a create
  answered \<open>AlreadyExists\<close>, the fetch of the object and the update of it with the
  archive's object, which succeed. Every one of these updates is a write of the server,
  and the keys of the objects stored are the same, in the same order, before and after
  the second run: no object is added.
\<close>

theorem RestoreBackup_again:
  assumes arch: "dsk (Join [resolveStoragePath storagePath, archiveName]) = Tar items"
    and first: "RestoreBackup (traced apiServer) dsk storagePath archiveName (c0, [])
                  = (Returned n, (c1, log1))"
  shows "\<exists>cl ns rvs c2.
           readEntries items [] [] = Returned (cl, ns)
           \<and> length rvs = length (cl @ ns)
           \<and> RestoreBackup (traced apiServer) dsk storagePath archiveName (c1, [])
               = (Returned n, (c2, concat (map2 inPlace (cl @ ns) rvs)))
           \<and> n = length (filter isJSONEntry items)
           \<and> n = length (cl @ ns)
           \<and> map fst (objects c2) = map fst (objects c1)
           \<and> revision c2 = revision c1 + n"
proof -
  have an: "archiveName \<noteq> []" using first by (auto simp: RestoreBackup_def)
  obtain cl ns where p: "readEntries items [] [] = Returned (cl, ns)"
    using first an arch by (cases "readEntries items [] []") (auto simp: RestoreBackup_def)
  have reads: "RestoreBackup (traced apiServer) dsk storagePath archiveName s
                 = applyLists (traced apiServer) [cl, ns] 0 s" for s
    using an arch p by (simp add: RestoreBackup_def del: applyLists.simps)
  note parts = readEntries_parts [OF p]
  have metac: "\<forall>res\<in>set cl. metadataOf (res_object res) \<noteq> None"
    and metan: "\<forall>res\<in>set ns. metadataOf (res_object res) \<noteq> None"
    and nsc: "\<forall>res\<in>set cl. res_namespace res = []"
    and count: "length cl + length ns = length (filter isJSONEntry items)"
    using parts by auto
  have run1: "applyLists (traced apiServer) [cl, ns] 0 (c0, []) = (Returned n, (c1, log1))"
    using first by (simp only: reads)
  from applyLists_traced [of apiServer cl ns 0 c0 "[]"] run1
  have plain: "applyLists apiServer [cl, ns] 0 c0 = (Returned n, c1)"
    by (cases "applyLists apiServer [cl, ns] 0 c0") auto
  obtain r cm where a1: "applyList apiServer cl 0 c0 = (r, cm)"
    by (cases "applyList apiServer cl 0 c0")
  note plain2 = plain [unfolded applyLists_two]
  from plain2 a1 obtain m where r: "r = Returned m"
    by (cases r) auto
  have a2: "applyList apiServer ns m cm = (Returned n, c1)"
    using plain2 a1 r by simp
  note s1 = applyList_success [OF a1 [unfolded r] metac]
  note s2 = applyList_success [OF a2 metan]
  have n: "n = length cl + length ns" using s1 s2 by simp
  have okc: "\<forall>res\<in>set cl. metadataOf (res_object res) \<noteq> None
             \<and> (res_namespace res = [] \<or> namespaceKey (res_namespace res) \<in> stored c1)
             \<and> resourceKey res \<in> stored c1"
    using metac nsc s1 s2 by auto
  from applyList_existing [OF okc, of 0 "[]"] obtain c1' rvs1 where
    x1: "length rvs1 = length cl"
      "applyList (traced apiServer) cl 0 (c1, [])
         = (Returned (0 + length cl), (c1', [] @ concat (map2 inPlace cl rvs1)))"
      "map fst (objects c1') = map fst (objects c1)" "stored c1' = stored c1"
      "revision c1' = revision c1 + length cl"
    by blast
  have okn: "\<forall>res\<in>set ns. metadataOf (res_object res) \<noteq> None
             \<and> (res_namespace res = [] \<or> namespaceKey (res_namespace res) \<in> stored c1')
             \<and> resourceKey res \<in> stored c1'"
    using metan s2 x1(4) by auto
  from applyList_existing [OF okn, of "length cl" "concat (map2 inPlace cl rvs1)"]
  obtain c2 rvs2 where
    x2: "length rvs2 = length ns"
      "applyList (traced apiServer) ns (length cl) (c1', concat (map2 inPlace cl rvs1))
           = (Returned (length cl + length ns),
              (c2, concat (map2 inPlace cl rvs1) @ concat (map2 inPlace ns rvs2)))"
      "map fst (objects c2) = map fst (objects c1')"
      "revision c2 = revision c1' + length ns"
    by blast
  have log: "concat (map2 inPlace cl rvs1) @ concat (map2 inPlace ns rvs2)
               = concat (map2 inPlace (cl @ ns) (rvs1 @ rvs2))"
    using x1(1) by simp
  have run2: "RestoreBackup (traced apiServer) dsk storagePath archiveName (c1, [])
          = (Returned n, (c2, concat (map2 inPlace (cl @ ns) (rvs1 @ rvs2))))"
    unfolding reads applyLists_two log [symmetric] using x1(2) x2(2) n by simp
  have "length (rvs1 @ rvs2) = length (cl @ ns)" using x1(1) x2(1) by simp
  moreover have "n = length (filter isJSONEntry items)" using n count by simp
  moreover have "n = length (cl @ ns)" using n by simp
  moreover have "map fst (objects c2) = map fst (objects c1)" using x1(3) x2(3) by simp
  moreover have "revision c2 = revision c1 + n" using x1(5) x2(4) n by simp
  ultimately show ?thesis using p run2 by blast
qed

lemma RestoreBackup_namespaces_anywhere:
  assumes an: "archiveName \<noteq> []"
    and arch: "dsk (Join [resolveStoragePath storagePath, archiveName]) = Tar items"
    and p: "readEntries items [] [] = Returned (cl, ns)"
    and avail: "\<forall>res\<in>set ns. namespaceKey (res_namespace res) \<in> stored c \<union> resourceKey ` set cl"
  shows "fst (RestoreBackup apiServer dsk storagePath archiveName c)
           = Returned (length (filter isJSONEntry items))"
proof -
  have reads: "RestoreBackup apiServer dsk storagePath archiveName c = applyLists apiServer [cl, ns] 0 c"
    using an arch p by (simp add: RestoreBackup_def del: applyLists.simps)
  note parts = readEntries_parts [OF p]
  have okc: "\<forall>res\<in>set cl. metadataOf (res_object res) \<noteq> None
             \<and> (res_namespace res = [] \<or> namespaceKey (res_namespace res) \<in> stored c)"
    using parts by auto
  from applyList_ok [OF okc, of 0] obtain cm where
    x1: "applyList apiServer cl 0 c = (Returned (0 + length cl), cm)"
      "stored cm = stored c \<union> resourceKey ` set cl" by blast
  have okn: "\<forall>res\<in>set ns. metadataOf (res_object res) \<noteq> None
             \<and> (res_namespace res = [] \<or> namespaceKey (res_namespace res) \<in> stored cm)"
    using parts avail x1(2) by auto
  from applyList_ok [OF okn, of "length cl"] obtain c' where
    x2: "applyList apiServer ns (length cl) cm = (Returned (length cl + length ns), c')" by blast
  have "RestoreBackup apiServer dsk storagePath archiveName c
          = (Returned (length cl + length ns), c')"
    unfolding reads applyLists_two using x1(1) x2 by simp
  with parts show ?thesis by simp
qed

lemma test_restore_count:
  "fst (RestoreBackup (traced apiServer) (testDisk arch) ''/var/backups''
          ''cluster-backup-restore.tar.gz'' (emptyCluster, [])) = Returned 2"
  if "arch = writeRestoreArchive \<or> arch = rev writeRestoreArchive"
  using that by (rule disjE) (simp, code_simp, simp, code_simp)

theorem RestoreBackup_again_witness:
  "fst (RestoreBackup (traced apiServer) (testDisk writeRestoreArchive) ''/var/backups''
          ''cluster-backup-restore.tar.gz'' (emptyCluster, [])) = Returned 2
   \<and> fst (RestoreBackup (traced apiServer) (testDisk writeRestoreArchive) ''/var/backups''
            ''cluster-backup-restore.tar.gz''
            (fst (snd (RestoreBackup (traced apiServer) (testDisk writeRestoreArchive)
                         ''/var/backups'' ''cluster-backup-restore.tar.gz'' (emptyCluster, []))),
             [])) = Returned 2
   \<and> map snd
         (snd (snd (RestoreBackup (traced apiServer) (testDisk writeRestoreArchive)
                      ''/var/backups'' ''cluster-backup-restore.tar.gz''
                      (fst (snd (RestoreBackup (traced apiServer) (testDisk writeRestoreArchive)
                                   ''/var/backups'' ''cluster-backup-restore.tar.gz''
                                   (emptyCluster, []))),
                       []))))
       = [Some AlreadyExists, None, None, Some AlreadyExists, None, None]"
proof -
  let ?run = "RestoreBackup (traced apiServer) (testDisk writeRestoreArchive) ''/var/backups''
                ''cluster-backup-restore.tar.gz'' (emptyCluster, [])"
  let ?again = "RestoreBackup (traced apiServer) (testDisk writeRestoreArchive) ''/var/backups''
                  ''cluster-backup-restore.tar.gz'' (fst (snd ?run), [])"
  have one: "fst ?run = Returned 2" by code_simp
  then have first: "?run = (Returned 2, (fst (snd ?run), snd (snd ?run)))"
    by (metis prod.collapse)
  have arch: "testDisk writeRestoreArchive
                (Join [resolveStoragePath ''/var/backups'', ''cluster-backup-restore.tar.gz''])
              = Tar writeRestoreArchive"
    by code_simp
  have p: "readEntries writeRestoreArchive [] []
             = Returned ([restoredNamespace], [restoredConfigMap])"
    by code_simp
  from RestoreBackup_again [OF arch first] obtain cl ns rvs c2 where
    t: "readEntries writeRestoreArchive [] [] = Returned (cl, ns)"
      "length rvs = length (cl @ ns)"
      "?again = (Returned 2, (c2, concat (map2 inPlace (cl @ ns) rvs)))"
    by blast
  from t(1) p have l: "cl @ ns = [restoredNamespace, restoredConfigMap]" by simp
  with t(2) obtain a b where rvs: "rvs = [a, b]"
    by (cases rvs; cases "tl rvs"; cases "tl (tl rvs)") auto
  have "map snd (snd (snd ?again)) = [Some AlreadyExists, None, None, Some AlreadyExists, None, None]"
    unfolding t(3) l rvs by (simp add: inPlace_def)
  moreover have "fst ?again = Returned 2" unfolding t(3) by simp
  ultimately show ?thesis using one by blast
qed

lemma RestoreBackup_request_order:
  assumes "RestoreBackup (traced bm) dsk storagePath archiveName (s, []) = (r, (s', log))"
  shows "\<exists>clusterRequests namespacedRequests.
           log = clusterRequests @ namespacedRequests
           \<and> (\<forall>ev\<in>set clusterRequests. requestNamespace (fst ev) = [])
           \<and> (\<forall>ev\<in>set namespacedRequests. requestNamespace (fst ev) \<noteq> [])"
proof -
  have none: ?thesis if "log = []"
    by (rule exI [of _ "[]"], rule exI [of _ "[]"]) (simp add: that)
  show ?thesis
  proof (cases "archiveName = []")
    case True
    with assms have "log = []" by (simp add: RestoreBackup_def)
    then show ?thesis by (rule none)
  next
    case False
    show ?thesis
    proof (cases "dsk (Join [resolveStoragePath storagePath, archiveName])")
      case OpenFails
      with assms False have "log = []" by (simp add: RestoreBackup_def)
      then show ?thesis by (rule none)
    next
      case NotGzip
      with assms False have "log = []" by (simp add: RestoreBackup_def)
      then show ?thesis by (rule none)
    next
      case (Tar items)
      show ?thesis
      proof (cases "readEntries items [] []")
        case (Error err)
        with assms False Tar have "log = []" by (simp add: RestoreBackup_def)
        then show ?thesis by (rule none)
      next
        case Panics
        with assms False Tar have "log = []" by (simp add: RestoreBackup_def)
        then show ?thesis by (rule none)
      next
        case (Returned lists)
        obtain cl ns where l: "lists = (cl, ns)" by (cases lists)
        from readEntries_parts [of items cl ns] Returned l have
          parts: "\<forall>res\<in>set cl. res_namespace res = []" "\<forall>res\<in>set ns. res_namespace res \<noteq> []"
          by auto
        from applyLists_traced [of bm cl ns 0 s "[]"] obtain evs1 evs2 where
          e: "applyLists (traced bm) [cl, ns] 0 (s, [])
            = (fst (applyLists bm [cl, ns] 0 s), (snd (applyLists bm [cl, ns] 0 s), [] @ evs1 @ evs2))"
            "\<forall>ev\<in>set evs1. requestNamespace (fst ev) \<in> res_namespace ` set cl"
            "\<forall>ev\<in>set evs2. requestNamespace (fst ev) \<in> res_namespace ` set ns"
          by blast
        have "log = evs1 @ evs2"
          using assms False Tar Returned l e(1) by (simp add: RestoreBackup_def)
        moreover have "\<forall>ev\<in>set evs1. requestNamespace (fst ev) = []" using e(2) parts(1) by auto
        moreover have "\<forall>ev\<in>set evs2. requestNamespace (fst ev) \<noteq> []"
        proof
          fix ev assume "ev \<in> set evs2"
          with e(3) obtain res where "res \<in> set ns" "requestNamespace (fst ev) = res_namespace res"
            by blast
          with parts(2) show "requestNamespace (fst ev) \<noteq> []" by simp
        qed
        ultimately show ?thesis by blast
      qed
    qed
  qed
qed

text \<open>
  Claim C6. Whatever the client answers and in whatever order the archive lists its
  entries, the requests of a restore are first those for cluster-scoped resources, then
  those for namespaced ones. Hence, on the reference server, which refuses to create an
  object in a namespace that does not exist, a restore of an archive whose entries can
  all be read returns with every entry applied as soon as each namespace it uses is in
  the system or is an object of the archive, wherever that object is in the archive.
\<close>

theorem RestoreBackup_cluster_first:
  assumes "RestoreBackup (traced bm) dsk storagePath archiveName (s, []) = (r, (s', log))"
  shows "(\<exists>clusterRequests namespacedRequests.
            log = clusterRequests @ namespacedRequests
            \<and> (\<forall>ev\<in>set clusterRequests. requestNamespace (fst ev) = [])
            \<and> (\<forall>ev\<in>set namespacedRequests. requestNamespace (fst ev) \<noteq> []))
         \<and> (\<forall>items cl ns c.
               archiveName \<noteq> []
               \<and> dsk (Join [resolveStoragePath storagePath, archiveName]) = Tar items
               \<and> readEntries items [] [] = Returned (cl, ns)
               \<and> (\<forall>res\<in>set ns. namespaceKey (res_namespace res)
                                   \<in> stored c \<union> resourceKey ` set cl)
               \<longrightarrow> fst (RestoreBackup apiServer dsk storagePath archiveName c)
                     = Returned (length (filter isJSONEntry items)))"
  using RestoreBackup_request_order [OF assms] RestoreBackup_namespaces_anywhere [of archiveName dsk storagePath]
  by blast

theorem RestoreBackup_cluster_first_witness:
  "readEntries (rev writeRestoreArchive) [] [] = Returned ([restoredNamespace], [restoredConfigMap])
   \<and> map (\<lambda>ev. requestNamespace (fst ev))
         (snd (snd (RestoreBackup (traced apiServer) (testDisk (rev writeRestoreArchive))
                      ''/var/backups'' ''cluster-backup-restore.tar.gz'' (emptyCluster, []))))
       = [[], ''restore-ns'']
   \<and> fst (RestoreBackup apiServer (testDisk (rev writeRestoreArchive)) ''/var/backups''
            ''cluster-backup-restore.tar.gz'' emptyCluster) = Returned 2"
proof -
  let ?run = "RestoreBackup (traced apiServer) (testDisk (rev writeRestoreArchive)) ''/var/backups''
                ''cluster-backup-restore.tar.gz'' (emptyCluster, [])"
  have p: "readEntries (rev writeRestoreArchive) [] []
             = Returned ([restoredNamespace], [restoredConfigMap])"
    by code_simp
  have e: "map (\<lambda>ev. requestNamespace (fst ev)) (snd (snd ?run)) = [[], ''restore-ns'']"
    by code_simp
  have run: "?run = (fst ?run, (fst (snd ?run), snd (snd ?run)))" by simp
  have an: "''cluster-backup-restore.tar.gz'' \<noteq> []" by simp
  have arch: "testDisk (rev writeRestoreArchive)
                (Join [resolveStoragePath ''/var/backups'', ''cluster-backup-restore.tar.gz''])
              = Tar (rev writeRestoreArchive)"
    by code_simp
  have avail: "\<forall>res\<in>set [restoredConfigMap].
                 namespaceKey (res_namespace res)
                   \<in> stored emptyCluster \<union> resourceKey ` set [restoredNamespace]"
    by (simp add: restoredConfigMap_def restoredNamespace_def namespaceKey_def resourceKey_def
        namespaceObject_def GetName_def NestedString_def metadataOf_def)
  have cnt: "length (filter isJSONEntry (rev writeRestoreArchive)) = 2"
    by code_simp
  from RestoreBackup_cluster_first [OF run] an arch p avail
  have "fst (RestoreBackup apiServer (testDisk (rev writeRestoreArchive)) ''/var/backups''
               ''cluster-backup-restore.tar.gz'' emptyCluster)
          = Returned (length (filter isJSONEntry (rev writeRestoreArchive)))"
    by blast
  with p e cnt show ?thesis by simp
qed

end
